theory Spec2Isabelle
  imports Complex_Main
begin

section \<open>Data model\<close>

text \<open>
  The script \<^verbatim>\<open>vad_transcribe.py\<close> measures time in Python floats. They are modelled
  as real numbers: arithmetic is exact, and there is neither rounding nor NaN. An interval
  is the tuple \<^verbatim>\<open>(start_ms, end_ms)\<close>.
\<close>

type_synonym interval = "real \<times> real"

section \<open>Interval merger\<close>

text \<open>
  \<^verbatim>\<open>merge_speech_segments_from_tuples\<close>, lines 146 to 174. The loop
  \<^verbatim>\<open>for i in range(1, len(segments))\<close> reads \<^verbatim>\<open>segments[i]\<close> and updates the three
  variables \<^verbatim>\<open>merged_segments\<close>, \<^verbatim>\<open>current_start\<close> and \<^verbatim>\<open>current_end\<close>;
  \<open>merge_body\<close> is one pass through its body. Every index of the loop is in range, since
  it runs below \<^verbatim>\<open>len(segments)\<close>, and \<^verbatim>\<open>segments[0]\<close> is read only after the empty list
  has returned. Python's \<^verbatim>\<open>sorted\<close> is stable, as \<open>sort_key\<close> is.
\<close>

definition merge_body ::
  "interval list \<Rightarrow> real \<Rightarrow> nat \<Rightarrow> interval list \<times> real \<times> real \<Rightarrow> interval list \<times> real \<times> real"
where
  "merge_body segments silence_threshold_ms i st =
     (case st of (merged_segments, current_start, current_end) \<Rightarrow>
        (case segments ! i of (next_start, next_end) \<Rightarrow>
           if next_start - current_end < silence_threshold_ms
           then (merged_segments, current_start, max current_end next_end)
           else (merged_segments @ [(current_start, current_end)], next_start, next_end)))"

definition merge_speech_segments_from_tuples :: "interval list \<Rightarrow> real \<Rightarrow> interval list" where
  "merge_speech_segments_from_tuples segments silence_threshold_sec =
     (if segments = [] then []
      else
        let sorted_segments = sort_key fst segments;
            silence_threshold_ms = silence_threshold_sec * 1000
        in (case fold (merge_body sorted_segments silence_threshold_ms)
                   [1 ..< length sorted_segments]
                   ([], fst (sorted_segments ! 0), snd (sorted_segments ! 0)) of
              (merged_segments, current_start, current_end) \<Rightarrow>
                merged_segments @ [(current_start, current_end)]))"

text \<open>
  The reference sweep, written from the words of the specification (section 4.1): sort by
  start, keep a running interval, extend it when the gap to the next interval is strictly
  below the threshold, otherwise flush it and restart from the next interval, and flush the
  last running interval at the end. Its threshold is in milliseconds.
\<close>

fun sweep :: "real \<Rightarrow> interval \<Rightarrow> interval list \<Rightarrow> interval list" where
  "sweep gap_threshold_ms (current_start, current_end) [] = [(current_start, current_end)]"
| "sweep gap_threshold_ms (current_start, current_end) ((next_start, next_end) # rest) =
     (if next_start - current_end < gap_threshold_ms
      then sweep gap_threshold_ms (current_start, max current_end next_end) rest
      else (current_start, current_end) # sweep gap_threshold_ms (next_start, next_end) rest)"

definition reference_merge :: "interval list \<Rightarrow> real \<Rightarrow> interval list" where
  "reference_merge intervals gap_threshold_ms =
     (case sort_key fst intervals of
        [] \<Rightarrow> []
      | first # rest \<Rightarrow> sweep gap_threshold_ms first rest)"

text \<open>
  The time an interval covers is the half-open span from its start to its end, as the
  slicer cuts it; an interval whose end is not after its start covers nothing.
\<close>

definition covered :: "interval \<Rightarrow> real set" where
  "covered iv = {fst iv ..< snd iv}"

definition coverage :: "interval list \<Rightarrow> real set" where
  "coverage ivs = (\<Union>iv \<in> set ivs. covered iv)"

definition overlap :: "interval \<Rightarrow> interval \<Rightarrow> bool" where
  "overlap a b = (max (fst a) (fst b) < min (snd a) (snd b))"

text \<open>No two intervals at different positions of the list overlap.\<close>

definition non_overlapping :: "interval list \<Rightarrow> bool" where
  "non_overlapping ivs =
     (\<forall>j < length ivs. \<forall>i < j. \<not> overlap (ivs ! i) (ivs ! j))"

text \<open>
  Every neighbouring pair of the list is kept apart by the sweep: the gap from the end of
  one to the start of the next is not below the threshold.
\<close>

fun separated :: "real \<Rightarrow> interval list \<Rightarrow> bool" where
  "separated g [] = True"
| "separated g [a] = True"
| "separated g (a # b # rest) = (\<not> (fst b - snd a < g) \<and> separated g (b # rest))"

text \<open>
  The three loop variables of the merger, stepped by the next interval itself instead of
  its index.
\<close>

definition sweep_body :: "real \<Rightarrow> interval \<Rightarrow> interval list \<times> real \<times> real \<Rightarrow> interval list \<times> real \<times> real"
where
  "sweep_body g nxt st =
     (case st of (acc, cs, ce) \<Rightarrow>
        if fst nxt - ce < g then (acc, cs, max ce (snd nxt))
        else (acc @ [(cs, ce)], fst nxt, snd nxt))"


section \<open>Padding of the detector's intervals\<close>

text \<open>
  \<^verbatim>\<open>detect_continuous_speech_segments\<close>, lines 111 to 132. The detector (the pyannote
  pipeline) is outside the program: its result \<^verbatim>\<open>vad_result\<close> is the list of raw
  \<^verbatim>\<open>(segment.start, segment.end)\<close> pairs in seconds that \<^verbatim>\<open>itertracks\<close> yields, and
  \<^verbatim>\<open>audio_length_ms\<close> is the length read from the waveform. \<open>pad_segment\<close> is the body
  of the loop over the tracks; \<^verbatim>\<open>speech_pad_ms\<close> is a Python int.
\<close>

definition pad_segment :: "int \<Rightarrow> real \<Rightarrow> real \<times> real \<Rightarrow> interval" where
  "pad_segment speech_pad_ms audio_length_ms segment =
     (let start_ms = fst segment * 1000;
          end_ms = snd segment * 1000
      in (max 0 (start_ms - of_int speech_pad_ms),
          min audio_length_ms (end_ms + of_int speech_pad_ms)))"

definition detect_continuous_speech_segments ::
  "(real \<times> real) list \<Rightarrow> real \<Rightarrow> real \<Rightarrow> int \<Rightarrow> interval list"
where
  "detect_continuous_speech_segments vad_result audio_length_ms silence_threshold_sec speech_pad_ms =
     (let speech_segments = map (pad_segment speech_pad_ms audio_length_ms) vad_result
      in if speech_segments = [] then []
         else merge_speech_segments_from_tuples speech_segments silence_threshold_sec)"

section \<open>Subtitle formatting\<close>

text \<open>
  Python's decimal formatting of integers. \<open>str_nat\<close> is \<^verbatim>\<open>f"{n}"\<close> for a natural
  number; \<open>format_0d w\<close> is the format \<^verbatim>\<open>{:0wd}\<close>: zero padding up to a minimum width
  \<open>w\<close>, the sign counted in the width and written before the zeros, and no truncation of
  a longer number.
\<close>

definition digit_char :: "nat \<Rightarrow> char" where
  "digit_char d = char_of (48 + d)"

fun str_nat :: "nat \<Rightarrow> string" where
  "str_nat n = (if n < 10 then [digit_char n] else str_nat (n div 10) @ [digit_char (n mod 10)])"

declare str_nat.simps [simp del]

definition zfill :: "nat \<Rightarrow> string \<Rightarrow> string" where
  "zfill w s = replicate (w - length s) (CHR ''0'') @ s"

definition format_0d :: "nat \<Rightarrow> int \<Rightarrow> string" where
  "format_0d w n =
     (if n < 0 then ''-'' @ zfill (w - 1) (str_nat (nat (- n))) else zfill w (str_nat (nat n)))"

text \<open>
  Python's \<^verbatim>\<open>//\<close> and \<^verbatim>\<open>%\<close> round towards minus infinity; \<^verbatim>\<open>int()\<close> truncates
  towards zero. The divisors of \<^verbatim>\<open>milliseconds_to_srt_time\<close> are positive constants.
\<close>

definition py_floordiv :: "real \<Rightarrow> real \<Rightarrow> real" where
  "py_floordiv x m = of_int \<lfloor>x / m\<rfloor>"

definition py_mod :: "real \<Rightarrow> real \<Rightarrow> real" where
  "py_mod x m = x - m * of_int \<lfloor>x / m\<rfloor>"

definition py_int :: "real \<Rightarrow> int" where
  "py_int x = (if 0 \<le> x then \<lfloor>x\<rfloor> else \<lceil>x\<rceil>)"

text \<open>\<^verbatim>\<open>milliseconds_to_srt_time\<close>, lines 312 to 321.\<close>

definition milliseconds_to_srt_time :: "real \<Rightarrow> string" where
  "milliseconds_to_srt_time ms =
     (let hours = py_int (py_floordiv ms 3600000);
          ms1 = py_mod ms 3600000;
          minutes = py_int (py_floordiv ms1 60000);
          ms2 = py_mod ms1 60000;
          seconds = py_int (py_floordiv ms2 1000);
          milliseconds = py_int (py_mod ms2 1000)
      in format_0d 2 hours @ '':'' @ format_0d 2 minutes @ '':'' @ format_0d 2 seconds
         @ '','' @ format_0d 3 milliseconds)"

section \<open>Timeline reassembler\<close>

text \<open>
  A transcript entry is the dictionary \<^verbatim>\<open>{'start', 'end', 'text'}\<close> of the engine's
  output, its times in seconds from the start of the slice. A transcription result is the
  dictionary whose key \<^verbatim>\<open>'segments'\<close> holds the entries; the key may be missing. Text is
  a list of characters, each standing for one code point below 256; \<open>is_space\<close> is
  \<^verbatim>\<open>str.isspace\<close> on these code points, and \<open>strip\<close> is \<^verbatim>\<open>str.strip()\<close>.
\<close>

record entry =
  entry_start :: real
  entry_end :: real
  entry_text :: string

record whisper_result =
  segments :: "entry list option"

record seg_info =
  segment_index :: nat
  segment_start_ms :: real
  segment_end_ms :: real
  whisper_result :: whisper_result

definition get_segments :: "whisper_result \<Rightarrow> entry list" where
  "get_segments r = (case segments r of None \<Rightarrow> [] | Some es \<Rightarrow> es)"

definition is_space :: "char \<Rightarrow> bool" where
  "is_space c = (of_char c \<in> {9, 10, 11, 12, 13, 28, 29, 30, 31, 32, 133, 160 :: nat})"

definition strip :: "string \<Rightarrow> string" where
  "strip s = rev (dropWhile is_space (rev (dropWhile is_space s)))"

text \<open>
  \<^verbatim>\<open>generate_srt\<close>, lines 324 to 351. \<open>write_cue\<close> is the four \<^verbatim>\<open>f.write\<close> calls of
  lines 343 to 347. The loops carry \<^verbatim>\<open>subtitle_index\<close> and the text written to the
  file so far: \<open>srt_entries\<close> is the inner loop over the entries of one segment,
  \<open>srt_segments\<close> the outer loop over \<^verbatim>\<open>all_segments\<close>.
\<close>

definition write_cue :: "nat \<Rightarrow> real \<Rightarrow> real \<Rightarrow> string \<Rightarrow> string" where
  "write_cue subtitle_index start_ms end_ms txt =
     str_nat subtitle_index @ [CHR 0x0A]
     @ milliseconds_to_srt_time start_ms @ '' --> '' @ milliseconds_to_srt_time end_ms @ [CHR 0x0A]
     @ txt @ [CHR 0x0A]
     @ [CHR 0x0A]"

fun srt_entries :: "real \<Rightarrow> entry list \<Rightarrow> nat \<times> string \<Rightarrow> nat \<times> string" where
  "srt_entries seg_start_ms [] st = st"
| "srt_entries seg_start_ms (segment # rest) (subtitle_index, f) =
     (let start_ms = seg_start_ms + entry_start segment * 1000;
          end_ms = seg_start_ms + entry_end segment * 1000;
          txt = strip (entry_text segment)
      in if txt \<noteq> []
         then srt_entries seg_start_ms rest
                (subtitle_index + 1, f @ write_cue subtitle_index start_ms end_ms txt)
         else srt_entries seg_start_ms rest (subtitle_index, f))"

fun srt_segments :: "seg_info list \<Rightarrow> nat \<times> string \<Rightarrow> nat \<times> string" where
  "srt_segments [] st = st"
| "srt_segments (seg_info # rest) st =
     srt_segments rest
       (srt_entries (segment_start_ms seg_info) (get_segments (whisper_result seg_info)) st)"

text \<open>The text of the subtitle file, and the number of cues the function reports.\<close>

definition generate_srt :: "seg_info list \<Rightarrow> string" where
  "generate_srt all_segments = snd (srt_segments all_segments (1, []))"


text \<open>
  The entries that yield a cue, each with the start of its segment, in the order of the
  segments and, within a segment, of its entries.
\<close>

definition kept_entries :: "seg_info \<Rightarrow> (real \<times> entry) list" where
  "kept_entries seg_info =
     map (Pair (segment_start_ms seg_info))
       (filter (\<lambda>e. strip (entry_text e) \<noteq> []) (get_segments (whisper_result seg_info)))"

definition cue_of :: "nat \<Rightarrow> real \<times> entry \<Rightarrow> string" where
  "cue_of k p =
     write_cue k (fst p + entry_start (snd p) * 1000) (fst p + entry_end (snd p) * 1000)
       (strip (entry_text (snd p)))"

text \<open>The cues of a list of kept entries, numbered from \<open>k\<close> on.\<close>

fun cues_from :: "nat \<Rightarrow> (real \<times> entry) list \<Rightarrow> string" where
  "cues_from k [] = []"
| "cues_from k (p # ps) = cue_of k p @ cues_from (Suc k) ps"

text \<open>
  The fixed-width form \<^verbatim>\<open>HH:MM:SS,mmm\<close> that the specification asks for, of a whole
  number of milliseconds: two digits each for hours, minutes and seconds, three for the
  milliseconds. \<open>srt_block\<close> is the block of one cue: the index line, the timing line, the
  text line and a blank line.
\<close>

definition two_digits :: "nat \<Rightarrow> string" where
  "two_digits v = [digit_char (v div 10 mod 10), digit_char (v mod 10)]"

definition three_digits :: "nat \<Rightarrow> string" where
  "three_digits v = [digit_char (v div 100 mod 10), digit_char (v div 10 mod 10), digit_char (v mod 10)]"

definition srt_timestamp :: "nat \<Rightarrow> string" where
  "srt_timestamp n =
     two_digits (n div 3600000) @ '':'' @ two_digits (n div 60000 mod 60) @ '':''
     @ two_digits (n div 1000 mod 60) @ '','' @ three_digits (n mod 1000)"

definition srt_block :: "nat \<Rightarrow> nat \<Rightarrow> nat \<Rightarrow> string \<Rightarrow> string" where
  "srt_block k a b txt =
     str_nat k @ [CHR 0x0A]
     @ srt_timestamp a @ '' --> '' @ srt_timestamp b @ [CHR 0x0A]
     @ txt @ [CHR 0x0A]
     @ [CHR 0x0A]"

text \<open>
  The time field as it is for any whole number of milliseconds: the hours in decimal,
  filled with a zero up to two digits and never cut, so with as many digits as the number
  needs; minutes, seconds and milliseconds as before. \<open>srt_block_long\<close> is the block
  of a cue with these time fields.
\<close>

definition srt_time_field :: "nat \<Rightarrow> string" where
  "srt_time_field n =
     zfill 2 (str_nat (n div 3600000)) @ '':'' @ two_digits (n div 60000 mod 60) @ '':''
     @ two_digits (n div 1000 mod 60) @ '','' @ three_digits (n mod 1000)"

definition srt_block_long :: "nat \<Rightarrow> nat \<Rightarrow> nat \<Rightarrow> string \<Rightarrow> string" where
  "srt_block_long k a b txt =
     str_nat k @ [CHR 0x0A]
     @ srt_time_field a @ '' --> '' @ srt_time_field b @ [CHR 0x0A]
     @ txt @ [CHR 0x0A]
     @ [CHR 0x0A]"

text \<open>
  The global times of a kept entry, and the times below 100 hours, where the hours have two
  digits.
\<close>

definition cue_start :: "real \<times> entry \<Rightarrow> real" where
  "cue_start p = fst p + entry_start (snd p) * 1000"

definition cue_end :: "real \<times> entry \<Rightarrow> real" where
  "cue_end p = fst p + entry_end (snd p) * 1000"

definition below_100_hours :: "real \<Rightarrow> bool" where
  "below_100_hours ms = (0 \<le> ms \<and> ms < 360000000)"



definition example_100h :: "seg_info list" where
  "example_100h =
     [\<lparr>segment_index = 0, segment_start_ms = 360000000, segment_end_ms = 360005000,
       whisper_result = \<lparr>segments = Some
         [\<lparr>entry_start = 0, entry_end = 1, entry_text = ''hi''\<rparr>]\<rparr>\<rparr>]"

definition example_99h_100h :: "seg_info list" where
  "example_99h_100h =
     [\<lparr>segment_index = 0, segment_start_ms = 356400000, segment_end_ms = 360005000,
       whisper_result = \<lparr>segments = Some
         [\<lparr>entry_start = 0, entry_end = 1, entry_text = ''a''\<rparr>,
          \<lparr>entry_start = 3600, entry_end = 3601, entry_text = ''b''\<rparr>]\<rparr>\<rparr>]"

section \<open>Checkpoint store and run directory\<close>

text \<open>
  The run directory \<^verbatim>\<open>temp_continuous\<close> is a map from file names to contents. A content
  is abstract: an empty file, a non-empty file that is not a JSON document, a JSON
  document, or the audio of a slice. A JSON document is an object, read as a transcription
  result, or any other JSON value. \<^verbatim>\<open>json.dump\<close> writes a document that \<^verbatim>\<open>json.load\<close>
  reads back as the same value, so re-saving a document leaves the content as it is.
  Opening, reading and writing a file of the run directory raise only when the file to
  read is missing.
\<close>

datatype json = JObject whisper_result | JOther

datatype file_content = EmptyFile | NotJson | JsonText json | Audio real real

type_synonym directory = "string \<rightharpoonup> file_content"

text \<open>
  The names \<^verbatim>\<open>f"segment_{i:04d}.json"\<close> and \<^verbatim>\<open>f"segment_{i:04d}.wav"\<close>.
  \<open>replace_wav\<close> is \<^verbatim>\<open>.replace('.wav', '')\<close>, which deletes every occurrence of the
  four characters from left to right.
\<close>

definition segment_stem :: "nat \<Rightarrow> string" where
  "segment_stem i = ''segment_'' @ format_0d 4 (int i)"

definition segment_json :: "nat \<Rightarrow> string" where
  "segment_json i = segment_stem i @ ''.json''"

definition segment_wav :: "nat \<Rightarrow> string" where
  "segment_wav i = segment_stem i @ ''.wav''"

fun replace_wav :: "string \<Rightarrow> string" where
  "replace_wav [] = []"
| "replace_wav (c # rest) =
     (if take 4 (c # rest) = ''.wav'' then replace_wav (drop 3 rest) else c # replace_wav rest)"

text \<open>\<^verbatim>\<open>check_segment_completed\<close>, lines 220 to 223: the file exists and is not empty.\<close>

definition check_segment_completed :: "nat \<Rightarrow> directory \<Rightarrow> bool" where
  "check_segment_completed seg_index output_dir =
     (case output_dir (segment_json seg_index) of
        None \<Rightarrow> False
      | Some c \<Rightarrow> c \<noteq> EmptyFile)"

definition empty_result :: whisper_result where
  "empty_result = \<lparr>segments = Some []\<rparr>"

text \<open>
  \<^verbatim>\<open>load_existing_result\<close>, lines 226 to 237: any exception while opening, parsing or
  reading the key gives \<^verbatim>\<open>{'segments': []}\<close>.
\<close>

definition load_existing_result :: "nat \<Rightarrow> directory \<Rightarrow> whisper_result" where
  "load_existing_result seg_index output_dir =
     (case output_dir (segment_json seg_index) of
        Some (JsonText (JObject r)) \<Rightarrow> r
      | _ \<Rightarrow> empty_result)"

section \<open>Segment pipeline driver\<close>

text \<open>
  The world the driver acts on is the run directory and the trace of its calls to the
  outside: a slicer call (\<^verbatim>\<open>ffmpeg\<close>, with the output file and the span), an engine call
  (\<^verbatim>\<open>whisper\<close>, with the audio file) and \<^verbatim>\<open>time.sleep\<close> with its seconds.

  The two collaborators are parameters. The engine, called in a world on an audio file,
  ends with exit status zero or not and leaves an output document or none; it is the
  document named after the audio file, the file that lines 287 and 288 open. The slicer
  succeeds or not.
\<close>

datatype event = SlicerCall string real real | EngineCall string | Sleep nat

record world =
  files :: directory
  trace :: "event list"

datatype engine_outcome = Outcome (exit_ok: bool) (written: "file_content option")

record collaborators =
  engine :: "world \<Rightarrow> string \<Rightarrow> engine_outcome"
  slicer :: "world \<Rightarrow> string \<Rightarrow> bool"

datatype error =
  CalledProcessError | FileNotFoundError | JSONDecodeError | AttributeError

text \<open>
  One pass through the \<^verbatim>\<open>try\<close> block of \<^verbatim>\<open>transcribe_with_whisper\<close>, lines 260 to
  300: run the engine (\<^verbatim>\<open>check=True\<close> raises on a non-zero exit), open and parse its
  document, write the parsed document back, and read its \<^verbatim>\<open>'segments'\<close> (which raises
  on a document that is not an object).
\<close>

definition whisper_attempt ::
  "collaborators \<Rightarrow> string \<Rightarrow> world \<Rightarrow> (error + whisper_result) \<times> world"
where
  "whisper_attempt env audio_file w =
     (let res = engine env w audio_file;
          json_file = replace_wav audio_file @ ''.json'';
          w1 = w\<lparr>files := (case written res of
                               None \<Rightarrow> files w
                             | Some c \<Rightarrow> (files w)(json_file \<mapsto> c)),
                   trace := trace w @ [EngineCall audio_file]\<rparr>
      in if \<not> exit_ok res then (Inl CalledProcessError, w1)
         else (case files w1 json_file of
                 None \<Rightarrow> (Inl FileNotFoundError, w1)
               | Some (JsonText transcription_result) \<Rightarrow>
                   (let w2 = w1\<lparr>files := (files w1)(json_file \<mapsto> JsonText transcription_result)\<rparr>
                    in (case transcription_result of
                          JObject r \<Rightarrow> (Inr r, w2)
                        | JOther \<Rightarrow> (Inl AttributeError, w2)))
               | Some _ \<Rightarrow> (Inl JSONDecodeError, w1)))"

text \<open>
  The loop \<^verbatim>\<open>for attempt in range(max_retries)\<close>, lines 256 to 309: a successful attempt
  returns its result; a failed one sleeps five seconds unless it was the last, and goes on;
  the end of the loop returns \<^verbatim>\<open>{'segments': []}\<close>.
\<close>

fun retry_loop ::
  "collaborators \<Rightarrow> string \<Rightarrow> nat \<Rightarrow> nat list \<Rightarrow> world \<Rightarrow> whisper_result \<times> world"
where
  "retry_loop env audio_file max_retries [] w = (empty_result, w)"
| "retry_loop env audio_file max_retries (attempt # rest) w =
     (case whisper_attempt env audio_file w of
        (Inr r, w') \<Rightarrow> (r, w')
      | (Inl e, w') \<Rightarrow>
          retry_loop env audio_file max_retries rest
            (if attempt < max_retries - 1 then w'\<lparr>trace := trace w' @ [Sleep 5]\<rparr> else w'))"

definition transcribe_with_whisper ::
  "collaborators \<Rightarrow> string \<Rightarrow> nat \<Rightarrow> world \<Rightarrow> whisper_result \<times> world"
where
  "transcribe_with_whisper env audio_file max_retries w =
     retry_loop env audio_file max_retries [0 ..< max_retries] w"

text \<open>
  \<^verbatim>\<open>cut_audio_segment\<close>, lines 203 to 217: \<^verbatim>\<open>check=True\<close> raises when the slicer
  fails, and nothing in \<^verbatim>\<open>main\<close> catches it.
\<close>

definition cut_audio_segment :: "collaborators \<Rightarrow> real \<Rightarrow> real \<Rightarrow> string \<Rightarrow> world \<Rightarrow> error + world" where
  "cut_audio_segment env start_ms end_ms output_file w =
     (let w1 = w\<lparr>trace := trace w @ [SlicerCall output_file start_ms end_ms]\<rparr>
      in if slicer env w output_file
         then Inr (w1\<lparr>files := (files w1)(output_file \<mapsto> Audio start_ms end_ms)\<rparr>)
         else Inl CalledProcessError)"

text \<open>
  The local variables of \<^verbatim>\<open>main\<close> that the loop over the segments updates, with the
  world.
\<close>

record main_state =
  world :: world
  all_segments :: "seg_info list"
  completed_count :: nat
  skipped_count :: nat
  failed_count :: nat

text \<open>
  The body of the loop of \<^verbatim>\<open>main\<close>, lines 444 to 483, for the index \<open>i\<close> and the
  interval \<^verbatim>\<open>(start_ms, end_ms)\<close>. \<^verbatim>\<open>main\<close> leaves \<^verbatim>\<open>max_retries\<close> at its
  default 3.
\<close>

definition process_segment ::
  "collaborators \<Rightarrow> nat \<Rightarrow> interval \<Rightarrow> main_state \<Rightarrow> error + main_state"
where
  "process_segment env i iv st =
     (let start_ms = fst iv; end_ms = snd iv; temp_dir = files (world st)
      in if check_segment_completed i temp_dir
         then Inr (st\<lparr>skipped_count := skipped_count st + 1,
                       all_segments := all_segments st @
                         [\<lparr>segment_index = i, segment_start_ms = start_ms,
                           segment_end_ms = end_ms,
                           whisper_result = load_existing_result i temp_dir\<rparr>]\<rparr>)
         else
           (let segment_file = segment_wav i
            in (case (if temp_dir segment_file = None
                      then cut_audio_segment env start_ms end_ms segment_file (world st)
                      else Inr (world st)) of
                  Inl e \<Rightarrow> Inl e
                | Inr w1 \<Rightarrow>
                    (case transcribe_with_whisper env segment_file 3 w1 of
                       (r, w2) \<Rightarrow>
                         (let st1 = (if get_segments r \<noteq> []
                                     then st\<lparr>completed_count := completed_count st + 1\<rparr>
                                     else st\<lparr>failed_count := failed_count st + 1\<rparr>)
                          in Inr (st1\<lparr>world := w2,
                                       all_segments := all_segments st @
                                         [\<lparr>segment_index = i, segment_start_ms = start_ms,
                                           segment_end_ms = end_ms,
                                           whisper_result = r\<rparr>]\<rparr>))))))"

text \<open>
  The loop \<^verbatim>\<open>for i, (start_ms, end_ms) in enumerate(continuous_segments)\<close>, from the
  index \<open>i\<close> on; an exception of the body ends the run.
\<close>

fun main_loop ::
  "collaborators \<Rightarrow> nat \<Rightarrow> interval list \<Rightarrow> main_state \<Rightarrow> error + main_state"
where
  "main_loop env i [] st = Inr st"
| "main_loop env i (iv # rest) st =
     (case process_segment env i iv st of
        Inl e \<Rightarrow> Inl e
      | Inr st' \<Rightarrow> main_loop env (Suc i) rest st')"

text \<open>
  The calls that the retry policy of the specification prescribes for an engine that fails
  every time: one engine call per attempt, and a sleep of five seconds between two
  consecutive attempts.
\<close>

fun retry_trace :: "string \<Rightarrow> nat \<Rightarrow> event list" where
  "retry_trace audio_file 0 = []"
| "retry_trace audio_file (Suc 0) = [EngineCall audio_file]"
| "retry_trace audio_file (Suc (Suc n)) =
     EngineCall audio_file # Sleep 5 # retry_trace audio_file (Suc n)"

text \<open>The file an event is about.\<close>

fun event_file :: "event \<Rightarrow> string option" where
  "event_file (SlicerCall f a b) = Some f"
| "event_file (EngineCall f) = Some f"
| "event_file (Sleep n) = None"

text \<open>
  The state in which \<^verbatim>\<open>main\<close> enters the loop, lines 436 to 442, on a run directory:
  no result yet and the three counters at zero. The trace starts empty with each run.
\<close>

definition initial_state :: "directory \<Rightarrow> main_state" where
  "initial_state temp_dir =
     \<lparr>world = \<lparr>files = temp_dir, trace = []\<rparr>, all_segments = [],
      completed_count = 0, skipped_count = 0, failed_count = 0\<rparr>"

text \<open>
  The events of one failed attempt; the world after the slice of segment \<open>i\<close> is there
  (cut when the file was missing, reused otherwise); what the engine's call leaves in the
  run directory; and a directory without a non-empty result file for segment \<open>i\<close>.
\<close>

definition retry_events :: "string \<Rightarrow> nat \<Rightarrow> nat \<Rightarrow> event list" where
  "retry_events audio_file max_retries attempt =
     EngineCall audio_file # (if attempt < max_retries - 1 then [Sleep 5] else [])"

definition sliced :: "nat \<Rightarrow> interval \<Rightarrow> world \<Rightarrow> world" where
  "sliced i iv w =
     (if files w (segment_wav i) = None
      then w\<lparr>trace := trace w @ [SlicerCall (segment_wav i) (fst iv) (snd iv)],
              files := (files w)(segment_wav i \<mapsto> Audio (fst iv) (snd iv))\<rparr>
      else w)"



text \<open>
  Three engines, each with a slicer that succeeds: one that exits with an error and writes
  nothing, one that exits with an error and leaves a partial document that is not JSON,
  and one that works. \<open>partial_dir\<close> is the run directory after the slice and the partial
  document of segment 0.
\<close>

definition env_down :: collaborators where
  "env_down = \<lparr>engine = (\<lambda>w audio_file. Outcome False None), slicer = (\<lambda>w output_file. True)\<rparr>"


definition env_up :: collaborators where
  "env_up =
     \<lparr>engine = (\<lambda>w audio_file. Outcome True (Some (JsonText (JObject
         \<lparr>segments = Some [\<lparr>entry_start = 0, entry_end = 1, entry_text = ''hi''\<rparr>]\<rparr>)))),
      slicer = (\<lambda>w output_file. True)\<rparr>"


text \<open>
  The number that a string of decimal digits writes, and the events about the slice of
  segment \<open>i\<close>: the slicer and engine calls on its audio file.
\<close>

definition decimal_value :: "string \<Rightarrow> nat" where
  "decimal_value s = foldl (\<lambda>a c. 10 * a + (of_char c - 48)) 0 s"

definition about :: "nat \<Rightarrow> event \<Rightarrow> bool" where
  "about i e = (event_file e = Some (segment_wav i))"

text \<open>
  A run on two segments whose second one is done: the result file of segment 1 is in the
  run directory from the start. \<open>mid_state\<close> is the state of \<^verbatim>\<open>main\<close> after the first
  segment has been cut and transcribed by the working engine.
\<close>

definition hi_result :: whisper_result where
  "hi_result = \<lparr>segments = Some [\<lparr>entry_start = 0, entry_end = 1, entry_text = ''hi''\<rparr>]\<rparr>"

definition done_dir :: directory where
  "done_dir = [segment_json 1 \<mapsto> JsonText (JObject hi_result)]"

definition mid_state :: main_state where
  "mid_state =
     \<lparr>world = \<lparr>files = done_dir(segment_wav 0 \<mapsto> Audio 0 1000,
                               segment_json 0 \<mapsto> JsonText (JObject hi_result)),
               trace = [SlicerCall (segment_wav 0) 0 1000, EngineCall (segment_wav 0)]\<rparr>,
      all_segments = [\<lparr>segment_index = 0, segment_start_ms = 0, segment_end_ms = 1000,
                       whisper_result = hi_result\<rparr>],
      completed_count = 1, skipped_count = 0, failed_count = 0\<rparr>"

section \<open>The merger equals the reference sweep\<close>

lemma fold_index_drop:
  "k \<le> length xs \<Longrightarrow> fold (\<lambda>i. f (xs ! i)) [k ..< length xs] s = fold f (drop k xs) s"
proof (induction "length xs - k" arbitrary: k s)
  case 0
  then show ?case by simp
next
  case (Suc n)
  then have lt: "k < length xs" by simp
  have step: "[k ..< length xs] = k # [Suc k ..< length xs]"
    using lt by (simp add: upt_conv_Cons)
  have dr: "drop k xs = xs ! k # drop (Suc k) xs"
    using lt by (simp add: Cons_nth_drop_Suc)
  have "fold (\<lambda>i. f (xs ! i)) [Suc k ..< length xs] (f (xs ! k) s)
        = fold f (drop (Suc k) xs) (f (xs ! k) s)"
    using Suc.hyps(1) [of "Suc k"] Suc.hyps(2) lt by simp
  then show ?case by (simp add: step dr)
qed

lemma merge_body_sweep_body: "merge_body xs g i = sweep_body g (xs ! i)"
  by (rule ext) (simp add: merge_body_def sweep_body_def split: prod.splits)

lemma fold_sweep_body:
  "(case fold (sweep_body g) rest (acc, cs, ce) of (m, a, b) \<Rightarrow> m @ [(a, b)])
   = acc @ sweep g (cs, ce) rest"
proof (induction rest arbitrary: acc cs ce)
  case Nil
  then show ?case by simp
next
  case (Cons nxt rest)
  obtain ns ne where nxt: "nxt = (ns, ne)" by (cases nxt)
  show ?case
  proof (cases "ns - ce < g")
    case True
    then show ?thesis
      using Cons.IH [of acc cs "max ce ne"] by (simp add: nxt sweep_body_def)
  next
    case False
    then show ?thesis
      using Cons.IH [of "acc @ [(cs, ce)]" ns ne] by (simp add: nxt sweep_body_def)
  qed
qed

lemma merge_loop_sweep:
  assumes ss: "ss = x # rest"
  shows "(case fold (merge_body ss g) [1 ..< length ss] ([], fst (ss ! 0), snd (ss ! 0)) of
           (m, a, b) \<Rightarrow> m @ [(a, b)]) = sweep g x rest"
proof -
  have fn: "merge_body ss g = (\<lambda>i. sweep_body g (ss ! i))"
    by (rule ext) (rule merge_body_sweep_body)
  have len: "1 \<le> length ss" by (simp add: ss)
  have idx: "fold (merge_body ss g) [1 ..< length ss] s = fold (sweep_body g) (drop 1 ss) s" for s
    unfolding fn by (rule fold_index_drop [OF len])
  have dr: "drop 1 ss = rest" and hd: "ss ! 0 = x" by (simp_all add: ss)
  show ?thesis
    unfolding idx dr hd
    using fold_sweep_body [of g rest "[]" "fst x" "snd x"] by simp
qed

lemma merge_eq_reference:
  "merge_speech_segments_from_tuples segs t = reference_merge segs (t * 1000)"
proof (cases "segs = []")
  case True
  then show ?thesis
    by (simp add: merge_speech_segments_from_tuples_def reference_merge_def)
next
  case False
  define ss where "ss = sort_key fst segs"
  have "length ss = length segs" by (simp add: ss_def)
  with False obtain x rest where ss: "ss = x # rest" by (cases ss) auto
  have "merge_speech_segments_from_tuples segs t = sweep (t * 1000) x rest"
    unfolding merge_speech_segments_from_tuples_def Let_def ss_def [symmetric]
      merge_loop_sweep [OF ss]
    using False by simp
  then show ?thesis
    by (simp add: reference_merge_def ss_def [symmetric] ss)
qed

section \<open>What the sweep guarantees\<close>

lemma sweep_nonempty: "sweep g c rest \<noteq> []"
proof (induction rest arbitrary: c)
  case Nil
  then show ?case by (cases c) simp
next
  case (Cons nxt rest)
  obtain cs ce where c: "c = (cs, ce)" by (cases c)
  obtain ns ne where nxt: "nxt = (ns, ne)" by (cases nxt)
  show ?case using Cons.IH [of "(cs, max ce ne)"] by (simp add: c nxt)
qed

lemma sweep_hd_start: "fst (hd (sweep g (cs, ce) rest)) = cs"
  by (induction rest arbitrary: ce) (auto split: prod.splits)

lemma sweep_starts: "fst ` set (sweep g c rest) \<subseteq> fst ` set (c # rest)"
proof (induction rest arbitrary: c)
  case Nil
  then show ?case by (cases c) simp
next
  case (Cons nxt rest)
  obtain cs ce where c: "c = (cs, ce)" by (cases c)
  obtain ns ne where nxt: "nxt = (ns, ne)" by (cases nxt)
  show ?case
    using Cons.IH [of "(cs, max ce ne)"] Cons.IH [of "(ns, ne)"]
    by (auto simp: c nxt)
qed

lemma sweep_sorted:
  "sorted (map fst (c # rest)) \<Longrightarrow> sorted (map fst (sweep g c rest))"
proof (induction rest arbitrary: c)
  case Nil
  then show ?case by (cases c) simp
next
  case (Cons nxt rest)
  obtain cs ce where c: "c = (cs, ce)" by (cases c)
  obtain ns ne where nxt: "nxt = (ns, ne)" by (cases nxt)
  have le: "cs \<le> ns" and all: "\<forall>y \<in> set rest. ns \<le> fst y" and srt: "sorted (map fst rest)"
    using Cons.prems by (auto simp: c nxt)
  show ?case
  proof (cases "ns - ce < g")
    case True
    have "sorted (map fst ((cs, max ce ne) # rest))"
      using le all srt by auto
    then show ?thesis
      using True Cons.IH [of "(cs, max ce ne)"] by (simp add: c nxt)
  next
    case False
    have s1: "sorted (map fst (sweep g (ns, ne) rest))"
      using Cons.IH [of "(ns, ne)"] all srt by simp
    have "\<forall>y \<in> set (sweep g (ns, ne) rest). cs \<le> fst y"
    proof
      fix y assume "y \<in> set (sweep g (ns, ne) rest)"
      then have "fst y \<in> fst ` set ((ns, ne) # rest)"
        using sweep_starts [of g "(ns, ne)" rest] by blast
      then show "cs \<le> fst y" using le all by auto
    qed
    then show ?thesis using False s1 by (simp add: c nxt)
  qed
qed

lemma sweep_separated: "separated g (sweep g c rest)"
proof (induction rest arbitrary: c)
  case Nil
  then show ?case by (cases c) simp
next
  case (Cons nxt rest)
  obtain cs ce where c: "c = (cs, ce)" by (cases c)
  obtain ns ne where nxt: "nxt = (ns, ne)" by (cases nxt)
  show ?case
  proof (cases "ns - ce < g")
    case True
    then show ?thesis using Cons.IH [of "(cs, max ce ne)"] by (simp add: c nxt)
  next
    case False
    obtain y ys where out: "sweep g (ns, ne) rest = y # ys"
      using sweep_nonempty [of g "(ns, ne)" rest] by (cases "sweep g (ns, ne) rest") auto
    have "fst y = ns" using sweep_hd_start [of g ns ne rest] by (simp add: out)
    then show ?thesis
      using False Cons.IH [of "(ns, ne)"] by (simp add: c nxt out)
  qed
qed

lemma sweep_fixed: "separated g (c # rest) \<Longrightarrow> sweep g c rest = c # rest"
proof (induction rest arbitrary: c)
  case Nil
  then show ?case by (cases c) simp
next
  case (Cons nxt rest)
  obtain cs ce where c: "c = (cs, ce)" by (cases c)
  obtain ns ne where nxt: "nxt = (ns, ne)" by (cases nxt)
  show ?case
    using Cons.prems Cons.IH [of "(ns, ne)"] by (simp add: c nxt)
qed

lemma reference_merge_idem:
  "reference_merge (reference_merge ivs g) g = reference_merge ivs g"
proof (cases "sort_key fst ivs")
  case Nil
  then show ?thesis by (simp add: reference_merge_def)
next
  case (Cons x rest)
  define out where "out = sweep g x rest"
  have r: "reference_merge ivs g = out"
    by (simp add: reference_merge_def Cons out_def)
  have "sorted (map fst (x # rest))"
    using sorted_sort_key [of fst ivs] by (simp add: Cons)
  then have "sorted (map fst out)"
    unfolding out_def by (rule sweep_sorted)
  then have srt: "sort_key fst out = out"
    by (rule sort_key_id_if_sorted)
  obtain y ys where out: "out = y # ys"
    using sweep_nonempty [of g x rest] by (cases out) (auto simp: out_def)
  have "separated g (y # ys)"
    using sweep_separated [of g x rest] by (simp add: out_def [symmetric] out)
  then have "sweep g y ys = y # ys" by (rule sweep_fixed)
  then have "(case out of [] \<Rightarrow> [] | first # rest \<Rightarrow> sweep g first rest) = out"
    by (simp add: out)
  then have "reference_merge out g = out"
    by (simp only: reference_merge_def srt)
  then show ?thesis by (simp only: r)
qed

lemma covered_extend:
  "cs \<le> ns \<Longrightarrow> covered (cs, ce) \<union> covered (ns, ne) \<subseteq> covered (cs, max ce ne)"
  by (auto simp: covered_def)

lemma sweep_coverage:
  "\<forall>y \<in> set rest. cs \<le> fst y \<Longrightarrow> sorted (map fst rest) \<Longrightarrow>
   coverage ((cs, ce) # rest) \<subseteq> coverage (sweep g (cs, ce) rest)"
proof (induction rest arbitrary: cs ce)
  case Nil
  then show ?case by simp
next
  case (Cons nxt rest)
  obtain ns ne where nxt: "nxt = (ns, ne)" by (cases nxt)
  have le: "cs \<le> ns" and all: "\<forall>y \<in> set rest. ns \<le> fst y" and srt: "sorted (map fst rest)"
    using Cons.prems by (auto simp: nxt)
  show ?case
  proof (cases "ns - ce < g")
    case True
    have "\<forall>y \<in> set rest. cs \<le> fst y" using le all by auto
    then have "coverage ((cs, max ce ne) # rest) \<subseteq> coverage (sweep g (cs, max ce ne) rest)"
      using Cons.IH [of cs "max ce ne"] srt by simp
    moreover have "coverage ((cs, ce) # (ns, ne) # rest) \<subseteq> coverage ((cs, max ce ne) # rest)"
      using covered_extend [OF le, of ce ne] by (auto simp: coverage_def)
    ultimately show ?thesis using True by (simp add: nxt)
  next
    case False
    have "coverage ((ns, ne) # rest) \<subseteq> coverage (sweep g (ns, ne) rest)"
      using Cons.IH [of ns ne] all srt by simp
    then show ?thesis using False by (auto simp: nxt coverage_def)
  qed
qed

lemma reference_merge_coverage: "coverage ivs \<subseteq> coverage (reference_merge ivs g)"
proof (cases "sort_key fst ivs")
  case Nil
  then have "ivs = []" by (metis length_sort length_0_conv)
  then show ?thesis by (simp add: coverage_def)
next
  case (Cons x rest)
  obtain cs ce where x: "x = (cs, ce)" by (cases x)
  have s: "sorted (map fst ((cs, ce) # rest))"
    using sorted_sort_key [of fst ivs] by (simp add: Cons x)
  have "coverage ((cs, ce) # rest) \<subseteq> coverage (sweep g (cs, ce) rest)"
    using s by (intro sweep_coverage) auto
  moreover have "coverage ivs = coverage ((cs, ce) # rest)"
    using set_sort [of fst ivs] by (simp add: coverage_def Cons x)
  ultimately show ?thesis by (simp add: reference_merge_def Cons x)
qed

lemma separated_sorted_ends:
  "0 \<le> g \<Longrightarrow> separated g (a # rest) \<Longrightarrow> sorted (map fst (a # rest)) \<Longrightarrow>
   \<forall>y \<in> set rest. snd a \<le> fst y"
proof (cases rest)
  case Nil
  then show ?thesis by simp
next
  case (Cons b bs)
  assume g: "0 \<le> g" and sep: "separated g (a # rest)" and srt: "sorted (map fst (a # rest))"
  have "snd a \<le> fst b" using g sep by (simp add: Cons)
  moreover have "\<forall>y \<in> set bs. fst b \<le> fst y" using srt by (simp add: Cons)
  ultimately show ?thesis by (auto simp: Cons)
qed

lemma separated_non_overlapping:
  "0 \<le> g \<Longrightarrow> separated g ivs \<Longrightarrow> sorted (map fst ivs) \<Longrightarrow>
   sorted_wrt (\<lambda>a b. snd a \<le> fst b) ivs"
proof (induction ivs)
  case Nil
  then show ?case by simp
next
  case (Cons a rest)
  have "separated g rest" using Cons.prems(2) by (cases rest) auto
  moreover have "sorted (map fst rest)" using Cons.prems(3) by simp
  ultimately have "sorted_wrt (\<lambda>a b. snd a \<le> fst b) rest"
    using Cons.IH Cons.prems(1) by simp
  then show ?case
    using separated_sorted_ends [OF Cons.prems] by simp
qed

lemma reference_merge_non_overlapping:
  assumes g: "0 \<le> g"
  shows "non_overlapping (reference_merge ivs g)"
proof (cases "sort_key fst ivs")
  case Nil
  then show ?thesis by (simp add: reference_merge_def non_overlapping_def)
next
  case (Cons x rest)
  define out where "out = sweep g x rest"
  have "sorted (map fst (x # rest))"
    using sorted_sort_key [of fst ivs] by (simp add: Cons)
  then have "sorted (map fst out)" unfolding out_def by (rule sweep_sorted)
  moreover have "separated g out" unfolding out_def by (rule sweep_separated)
  ultimately have sw: "sorted_wrt (\<lambda>a b. snd a \<le> fst b) out"
    using separated_non_overlapping [OF g] by blast
  have "\<not> overlap (out ! i) (out ! j)" if "j < length out" "i < j" for i j
  proof -
    have "snd (out ! i) \<le> fst (out ! j)"
      using sw that by (simp add: sorted_wrt_iff_nth_less)
    then show ?thesis by (simp add: overlap_def)
  qed
  then show ?thesis
    by (simp add: reference_merge_def Cons out_def [symmetric] non_overlapping_def)
qed

lemma sweep_ends: "snd ` set (sweep g c rest) \<subseteq> snd ` set (c # rest)"
proof (induction rest arbitrary: c)
  case Nil
  then show ?case by (cases c) simp
next
  case (Cons nxt rest)
  obtain cs ce where c: "c = (cs, ce)" by (cases c)
  obtain ns ne where nxt: "nxt = (ns, ne)" by (cases nxt)
  have m: "max ce ne = ce \<or> max ce ne = ne" by (auto simp: max_def)
  show ?case
  proof (cases "ns - ce < g")
    case True
    have "snd ` set (sweep g (cs, max ce ne) rest) \<subseteq> snd ` set ((cs, max ce ne) # rest)"
      by (rule Cons.IH)
    also have "\<dots> \<subseteq> snd ` set ((cs, ce) # (ns, ne) # rest)"
      using m by auto
    finally show ?thesis using True by (simp add: c nxt)
  next
    case False
    have "snd ` set (sweep g (ns, ne) rest) \<subseteq> snd ` set ((ns, ne) # rest)"
      by (rule Cons.IH)
    then show ?thesis using False by (auto simp: c nxt)
  qed
qed

lemma reference_merge_endpoints:
  "fst ` set (reference_merge ivs g) \<subseteq> fst ` set ivs \<and>
   snd ` set (reference_merge ivs g) \<subseteq> snd ` set ivs"
proof (cases "sort_key fst ivs")
  case Nil
  then show ?thesis by (simp add: reference_merge_def)
next
  case (Cons x rest)
  have "set ivs = set (x # rest)"
    using set_sort [of fst ivs] by (simp add: Cons)
  then show ?thesis
    using sweep_starts [of g x rest] sweep_ends [of g x rest]
    by (simp add: reference_merge_def Cons)
qed

section \<open>Claims about the interval merger\<close>

text \<open>
  C1. The interval merger equals the reference sweep: for every list of intervals and every
  threshold it returns what sorting by start and sweeping with a running interval returns,
  where the running interval is extended exactly when the gap to the next start is strictly
  below the threshold in milliseconds, and is flushed otherwise and at the end. The empty
  list gives the empty list, and a single interval is returned unchanged. A gap equal to
  the threshold (2000 ms for 2 s) does not merge; a gap of 1999 ms does.
\<close>

theorem merge_equals_reference_sweep:
  "merge_speech_segments_from_tuples segs t = reference_merge segs (t * 1000)
   \<and> merge_speech_segments_from_tuples [] t = []
   \<and> merge_speech_segments_from_tuples [iv] t = [iv]
   \<and> merge_speech_segments_from_tuples [(0, 1000), (3000, 4000)] 2 = [(0, 1000), (3000, 4000)]
   \<and> merge_speech_segments_from_tuples [(0, 1000), (2999, 4000)] 2 = [(0, 4000)]"
proof -
  have "reference_merge [iv] (t * 1000) = [iv]"
    by (cases iv) (simp add: reference_merge_def)
  moreover have "reference_merge [(0, 1000), (3000, 4000)] (2 * 1000) = [(0, 1000), (3000, 4000)]"
    by (simp add: reference_merge_def)
  moreover have "reference_merge [(0, 1000), (2999, 4000)] (2 * 1000) = [(0, 4000)]"
    by (simp add: reference_merge_def)
  moreover have "merge_speech_segments_from_tuples [] t = []"
    by (simp add: merge_speech_segments_from_tuples_def)
  ultimately show ?thesis
    by (simp only: merge_eq_reference simp_thms)
qed

text \<open>
  C6. Merging is idempotent: for every list of intervals and every threshold, merging the
  output of the merger again with the same threshold returns that output.
\<close>

theorem merge_idempotent:
  "merge_speech_segments_from_tuples (merge_speech_segments_from_tuples segs t) t
   = merge_speech_segments_from_tuples segs t"
  by (simp only: merge_eq_reference reference_merge_idem)

text \<open>
  C7, as the claim states it, fails: with a negative threshold two overlapping intervals
  are neither merged nor separated. The intervals from 0 to 10 and from 5 to 20, merged
  with the threshold of minus one second, come back as they are, and they overlap.
\<close>

theorem merge_overlap_counterexample:
  "merge_speech_segments_from_tuples [(0, 10), (5, 20)] (- 1) = [(0, 10), (5, 20)]
   \<and> overlap (0, 10) (5, 20)
   \<and> \<not> non_overlapping (merge_speech_segments_from_tuples [(0, 10), (5, 20)] (- 1))"
proof -
  have m: "merge_speech_segments_from_tuples [(0, 10), (5, 20)] (- 1) = [(0, 10), (5, 20)]"
    by (simp add: merge_eq_reference reference_merge_def)
  have o: "overlap (0, 10) (5, 20)"
    by (simp add: overlap_def)
  have "\<not> non_overlapping [(0, 10), (5, 20)]"
  proof
    assume a: "non_overlapping [(0, 10), (5, 20)]"
    have "\<not> overlap ([(0, 10), (5, 20)] ! 0) ([(0, 10), (5, 20)] ! 1)"
      using a [unfolded non_overlapping_def, rule_format, of 1 0] by simp
    then show False using o by simp
  qed
  then show ?thesis using m o by simp
qed

text \<open>
  C7, amended. For every list of intervals and every threshold, the time the output of the
  merger covers includes the time the input covers; and for every threshold that is not
  negative, no two intervals of the output overlap.
\<close>

theorem merge_coverage_and_disjoint:
  "coverage segs \<subseteq> coverage (merge_speech_segments_from_tuples segs t)
   \<and> (0 \<le> t \<longrightarrow> non_overlapping (merge_speech_segments_from_tuples segs t))"
proof -
  have "non_overlapping (reference_merge segs (t * 1000))" if "0 \<le> t"
    using that by (intro reference_merge_non_overlapping) simp
  then show ?thesis
    by (simp only: merge_eq_reference reference_merge_coverage) simp
qed

theorem merge_coverage_and_disjoint_witness:
  "(0::real) \<le> 2
   \<and> merge_speech_segments_from_tuples [(5000, 6000), (0, 1000), (500, 1500)] 2
       = [(0, 1500), (5000, 6000)]
   \<and> coverage [(5000, 6000), (0, 1000), (500, 1500)] \<subseteq> coverage [(0, 1500), (5000, 6000)]
   \<and> non_overlapping [(0, 1500), (5000, 6000)]"
proof -
  have m: "merge_speech_segments_from_tuples [(5000, 6000), (0, 1000), (500, 1500)] 2
           = [(0, 1500), (5000, 6000)]"
    by (simp add: merge_eq_reference reference_merge_def)
  show ?thesis
    using merge_coverage_and_disjoint [of "[(5000, 6000), (0, 1000), (500, 1500)]" 2]
    by (simp add: m)
qed

text \<open>
  C8. Before sorting and merging, every raw interval of the detector is expanded by the pad
  on both sides, its start clamped at 0 and its end at the length of the audio: the padded
  start is never negative and the padded end never exceeds the length. The merger runs on
  the padded intervals, so an overlap that padding creates is merged, and every interval
  the detection returns keeps both bounds.
\<close>

theorem pad_then_merge:
  "detect_continuous_speech_segments vad_result audio_length_ms t speech_pad_ms
     = merge_speech_segments_from_tuples
         (map (pad_segment speech_pad_ms audio_length_ms) vad_result) t
   \<and> pad_segment speech_pad_ms audio_length_ms (a, b)
       = (max 0 (a * 1000 - of_int speech_pad_ms), min audio_length_ms (b * 1000 + of_int speech_pad_ms))
   \<and> 0 \<le> fst (pad_segment speech_pad_ms audio_length_ms (a, b))
   \<and> snd (pad_segment speech_pad_ms audio_length_ms (a, b)) \<le> audio_length_ms
   \<and> (\<forall>iv \<in> set (detect_continuous_speech_segments vad_result audio_length_ms t speech_pad_ms).
         0 \<le> fst iv \<and> snd iv \<le> audio_length_ms)"
proof -
  define padded where "padded = map (pad_segment speech_pad_ms audio_length_ms) vad_result"
  have d: "detect_continuous_speech_segments vad_result audio_length_ms t speech_pad_ms
           = merge_speech_segments_from_tuples padded t"
  proof (cases "vad_result = []")
    case True
    then show ?thesis
      by (simp add: detect_continuous_speech_segments_def padded_def
          merge_speech_segments_from_tuples_def)
  next
    case False
    then show ?thesis
      by (simp add: detect_continuous_speech_segments_def Let_def padded_def)
  qed
  have bounds: "0 \<le> fst (pad_segment speech_pad_ms audio_length_ms s)
                \<and> snd (pad_segment speech_pad_ms audio_length_ms s) \<le> audio_length_ms" for s
    by (simp add: pad_segment_def Let_def)
  have "0 \<le> fst iv \<and> snd iv \<le> audio_length_ms"
    if "iv \<in> set (merge_speech_segments_from_tuples padded t)" for iv
  proof -
    have iv: "iv \<in> set (reference_merge padded (t * 1000))"
      using that by (simp only: merge_eq_reference)
    have "fst iv \<in> fst ` set padded" and "snd iv \<in> snd ` set padded"
      using reference_merge_endpoints [of padded "t * 1000"] iv by blast+
    then show ?thesis
      using bounds by (auto simp: padded_def)
  qed
  then show ?thesis
    using bounds [of "(a, b)"]
    by (simp add: d padded_def [symmetric] pad_segment_def Let_def)
qed

theorem pad_then_merge_witness:
  "detect_continuous_speech_segments [(1 / 10, 2), (22 / 5, 5)] 5200 2 300 = [(0, 5200)]
   \<and> merge_speech_segments_from_tuples [(100, 2000), (4400, 5000)] 2
       = [(100, 2000), (4400, 5000)]
   \<and> 0 \<le> fst (hd (detect_continuous_speech_segments [(1 / 10, 2), (22 / 5, 5)] 5200 2 300))
   \<and> snd (hd (detect_continuous_speech_segments [(1 / 10, 2), (22 / 5, 5)] 5200 2 300)) \<le> 5200"
proof -
  have m: "merge_speech_segments_from_tuples [(100, 2000), (4400, 5000)] 2
           = [(100, 2000), (4400, 5000)]"
    by (simp add: merge_eq_reference reference_merge_def)
  have "merge_speech_segments_from_tuples (map (pad_segment 300 5200) [(1 / 10, 2), (22 / 5, 5)]) 2
        = [(0, 5200)]"
    by (simp add: merge_eq_reference reference_merge_def pad_segment_def Let_def)
  then show ?thesis
    using pad_then_merge [of "[(1 / 10, 2), (22 / 5, 5)]" 5200 2 300 0 0] m
    by simp
qed

section \<open>The loops of the reassembler in closed form\<close>

lemma cues_from_append: "cues_from k (xs @ ys) = cues_from k xs @ cues_from (k + length xs) ys"
  by (induction xs arbitrary: k) simp_all

lemma cues_from_nth:
  "cues_from k ps = concat (map (\<lambda>j. cue_of (k + j) (ps ! j)) [0 ..< length ps])"
proof (induction ps arbitrary: k)
  case Nil
  then show ?case by simp
next
  case (Cons p ps)
  have "[0 ..< length (p # ps)] = 0 # map Suc [0 ..< length ps]"
    by (simp add: upt_conv_Cons map_Suc_upt del: upt_Suc)
  then show ?case
    by (simp add: Cons.IH [of "Suc k"] comp_def del: upt_Suc)
qed

lemma srt_entries_closed:
  "srt_entries off es (k, f) =
     (k + length (filter (\<lambda>e. strip (entry_text e) \<noteq> []) es),
      f @ cues_from k (map (Pair off) (filter (\<lambda>e. strip (entry_text e) \<noteq> []) es)))"
  by (induction es arbitrary: k f) (simp_all add: Let_def cue_of_def)

lemma srt_segments_closed:
  "srt_segments segs (k, f) =
     (k + length (concat (map kept_entries segs)),
      f @ cues_from k (concat (map kept_entries segs)))"
proof (induction segs arbitrary: k f)
  case Nil
  then show ?case by simp
next
  case (Cons seg segs)
  show ?case
    by (simp add: srt_entries_closed Cons.IH kept_entries_def cues_from_append add.assoc)
qed

lemma generate_srt_closed:
  "generate_srt segs = cues_from 1 (concat (map kept_entries segs))"
  by (simp add: generate_srt_def srt_segments_closed)


section \<open>The time format\<close>

lemma digit_char_0: "digit_char 0 = CHR ''0''"
  by code_simp

lemma format_0d_two:
  assumes "0 \<le> v" "v < 100"
  shows "format_0d 2 v = two_digits (nat v)"
proof (cases "nat v < 10")
  case True
  then have "str_nat (nat v) = [digit_char (nat v)]" by (simp add: str_nat.simps)
  then show ?thesis
    using assms True by (simp add: format_0d_def zfill_def two_digits_def digit_char_0)
next
  case False
  have "nat v div 10 < 10" using assms by auto
  then have "str_nat (nat v div 10) = [digit_char (nat v div 10)]"
    by (simp add: str_nat.simps)
  then have "str_nat (nat v) = [digit_char (nat v div 10), digit_char (nat v mod 10)]"
    using False str_nat.simps [of "nat v"] by simp
  then show ?thesis
    using assms \<open>nat v div 10 < 10\<close> by (simp add: format_0d_def zfill_def two_digits_def)
qed

lemma format_0d_three:
  assumes "0 \<le> v" "v < 1000"
  shows "format_0d 3 v = three_digits (nat v)"
proof -
  define n where "n = nat v"
  have n: "n < 1000" using assms by (simp add: n_def)
  have f: "format_0d 3 v = zfill 3 (str_nat n)"
    using assms by (simp add: format_0d_def n_def)
  consider "n < 10" | "10 \<le> n" "n < 100" | "100 \<le> n" by linarith
  then have "zfill 3 (str_nat n) = three_digits n"
  proof cases
    case 1
    then have "str_nat n = [digit_char n]" by (simp add: str_nat.simps)
    then show ?thesis
      using 1 by (simp add: zfill_def three_digits_def digit_char_0 numeral_3_eq_3)
  next
    case 2
    then have "n div 10 < 10" by auto
    then have "str_nat (n div 10) = [digit_char (n div 10)]" by (simp add: str_nat.simps)
    then have "str_nat n = [digit_char (n div 10), digit_char (n mod 10)]"
      using 2 str_nat.simps [of n] by simp
    then show ?thesis
      using 2 \<open>n div 10 < 10\<close> by (simp add: zfill_def three_digits_def digit_char_0)
  next
    case 3
    then have a: "\<not> n div 10 < 10" and b: "n div 10 div 10 < 10" using n by auto
    have "str_nat (n div 10 div 10) = [digit_char (n div 10 div 10)]"
      using b by (simp add: str_nat.simps)
    then have "str_nat (n div 10) = [digit_char (n div 10 div 10), digit_char (n div 10 mod 10)]"
      using a str_nat.simps [of "n div 10"] by simp
    then have "str_nat n = [digit_char (n div 10 div 10), digit_char (n div 10 mod 10), digit_char (n mod 10)]"
      using 3 str_nat.simps [of n] by simp
    moreover have "n div 10 div 10 = n div 100" by (simp add: div_mult2_eq [symmetric])
    moreover have "n div 100 mod 10 = n div 100" using n by simp
    ultimately show ?thesis
      by (simp add: zfill_def three_digits_def)
  qed
  then show ?thesis by (simp add: f n_def)
qed

lemma floor_py_mod:
  assumes "0 < k"
  shows "\<lfloor>py_mod x (of_int k)\<rfloor> = \<lfloor>x\<rfloor> mod k"
proof -
  have "\<lfloor>x / of_int k\<rfloor> = \<lfloor>x\<rfloor> div k"
    using assms by (simp add: floor_divide_real_eq_div)
  then have "py_mod x (of_int k) = x - of_int (k * (\<lfloor>x\<rfloor> div k))"
    by (simp add: py_mod_def)
  then have "\<lfloor>py_mod x (of_int k)\<rfloor> = \<lfloor>x\<rfloor> - k * (\<lfloor>x\<rfloor> div k)"
    by (simp only: floor_diff_of_int)
  then show ?thesis by (simp add: minus_mult_div_eq_mod)
qed

lemma py_mod_nonneg: "0 < m \<Longrightarrow> 0 \<le> py_mod x m"
  using floor_divide_lower [of m x] by (simp add: py_mod_def mult.commute)

lemma py_int_floordiv:
  assumes "0 < k"
  shows "py_int (py_floordiv x (of_int k)) = \<lfloor>x\<rfloor> div k"
proof -
  have "\<lfloor>x / of_int k\<rfloor> = \<lfloor>x\<rfloor> div k"
    using assms by (simp add: floor_divide_real_eq_div)
  then show ?thesis by (simp add: py_int_def py_floordiv_def)
qed

lemma mod_mult_div: "(k::nat) mod (a * b) div a = k div a mod b"
proof (cases "a = 0")
  case True
  then show ?thesis by simp
next
  case False
  have "k mod (a * b) = a * (k div a mod b) + k mod a" by (rule mod_mult2_eq)
  then show ?thesis using False by simp
qed

lemma srt_time_in_range:
  assumes "0 \<le> ms" "ms < 360000000"
  shows "milliseconds_to_srt_time ms = srt_timestamp (nat \<lfloor>ms\<rfloor>)"
proof -
  define n where "n = \<lfloor>ms\<rfloor>"
  have n0: "0 \<le> n" and n1: "n < 360000000"
    using assms by (simp_all add: n_def floor_less_iff)
  define ms1 where "ms1 = py_mod ms 3600000"
  define ms2 where "ms2 = py_mod ms1 60000"
  have h: "py_int (py_floordiv ms 3600000) = n div 3600000"
    using py_int_floordiv [of 3600000 ms] by (simp add: n_def)
  have f1: "\<lfloor>ms1\<rfloor> = n mod 3600000"
    using floor_py_mod [of 3600000 ms] by (simp add: ms1_def n_def)
  have m: "py_int (py_floordiv ms1 60000) = n mod 3600000 div 60000"
    using py_int_floordiv [of 60000 ms1] by (simp add: f1)
  have f2: "\<lfloor>ms2\<rfloor> = n mod 60000"
    using floor_py_mod [of 60000 ms1] by (simp add: ms2_def f1 mod_mod_cancel)
  have s: "py_int (py_floordiv ms2 1000) = n mod 60000 div 1000"
    using py_int_floordiv [of 1000 ms2] by (simp add: f2)
  have "0 \<le> py_mod ms2 1000" by (rule py_mod_nonneg) simp
  then have u: "py_int (py_mod ms2 1000) = n mod 1000"
    using floor_py_mod [of 1000 ms2] by (simp add: py_int_def f2 mod_mod_cancel)
  define k where "k = nat n"
  have nk: "n = int k" using n0 by (simp add: k_def)
  have k1: "k < 360000000" using n1 nk by simp
  have hb: "n div 3600000 = int (k div 3600000)"
    by (simp add: nk zdiv_int)
  have "k mod (60000 * 60) div 60000 = k div 60000 mod 60" by (rule mod_mult_div)
  then have "int (k mod 3600000 div 60000) = int (k div 60000 mod 60)" by simp
  then have mb: "n mod 3600000 div 60000 = int (k div 60000 mod 60)"
    by (simp add: nk zdiv_int zmod_int)
  have "k mod (1000 * 60) div 1000 = k div 1000 mod 60" by (rule mod_mult_div)
  then have "int (k mod 60000 div 1000) = int (k div 1000 mod 60)" by simp
  then have sb: "n mod 60000 div 1000 = int (k div 1000 mod 60)"
    by (simp add: nk zdiv_int zmod_int)
  have ub: "n mod 1000 = int (k mod 1000)"
    by (simp add: nk zmod_int)
  have b1: "k div 3600000 < 100" using k1 by simp
  have e1: "format_0d 2 (int (k div 3600000)) = two_digits (k div 3600000)"
    using format_0d_two [of "int (k div 3600000)"] b1 by simp
  have e2: "format_0d 2 (int (k div 60000 mod 60)) = two_digits (k div 60000 mod 60)"
    using format_0d_two [of "int (k div 60000 mod 60)"] by simp
  have e3: "format_0d 2 (int (k div 1000 mod 60)) = two_digits (k div 1000 mod 60)"
    using format_0d_two [of "int (k div 1000 mod 60)"] by simp
  have e4: "format_0d 3 (int (k mod 1000)) = three_digits (k mod 1000)"
    using format_0d_three [of "int (k mod 1000)"] by simp
  show ?thesis
    unfolding milliseconds_to_srt_time_def Let_def ms1_def [symmetric] ms2_def [symmetric]
      h m s u hb mb sb ub srt_timestamp_def e1 e2 e3 e4 n_def [symmetric] k_def [symmetric]
    by (rule refl)
qed

lemma length_srt_timestamp: "length (srt_timestamp n) = 12"
  by (simp add: srt_timestamp_def two_digits_def three_digits_def)

lemma cue_of_in_range:
  assumes "below_100_hours (cue_start p)" "below_100_hours (cue_end p)"
  shows "cue_of k p
         = srt_block k (nat \<lfloor>cue_start p\<rfloor>) (nat \<lfloor>cue_end p\<rfloor>) (strip (entry_text (snd p)))"
proof -
  have "milliseconds_to_srt_time (cue_start p) = srt_timestamp (nat \<lfloor>cue_start p\<rfloor>)"
    using assms(1) by (intro srt_time_in_range) (simp_all add: below_100_hours_def)
  moreover have "milliseconds_to_srt_time (cue_end p) = srt_timestamp (nat \<lfloor>cue_end p\<rfloor>)"
    using assms(2) by (intro srt_time_in_range) (simp_all add: below_100_hours_def)
  ultimately show ?thesis
    by (simp add: cue_of_def write_cue_def srt_block_def cue_start_def cue_end_def)
qed

lemma decimal_value_snoc:
  "decimal_value (s @ [c]) = 10 * decimal_value s + (of_char c - 48)"
  by (simp add: decimal_value_def)

lemma of_char_digit: "d < 10 \<Longrightarrow> of_char (digit_char d) - 48 = d"
  by (simp add: digit_char_def)

lemma decimal_value_str_nat: "decimal_value (str_nat n) = n"
proof (induction n rule: str_nat.induct)
  case (1 n)
  show ?case
  proof (cases "n < 10")
    case True
    then show ?thesis
      using decimal_value_snoc [of "[]" "digit_char n"]
      by (simp add: str_nat.simps [of n] of_char_digit decimal_value_def)
  next
    case False
    then have "decimal_value (str_nat n) = 10 * (n div 10) + n mod 10"
      using 1 by (simp add: str_nat.simps [of n] decimal_value_snoc of_char_digit)
    then show ?thesis by simp
  qed
qed

lemma decimal_value_zeros:
  "decimal_value (replicate k (CHR ''0'') @ s) = decimal_value s"
proof -
  have "foldl (\<lambda>a c. 10 * a + (of_char c - 48)) 0 (replicate k (CHR ''0'')) = (0::nat)"
    by (induction k) simp_all
  then show ?thesis by (simp add: decimal_value_def)
qed

lemma digit_char_table: "map digit_char [0, 1, 2, 3, 4, 5, 6, 7, 8, 9] = ''0123456789''"
  by code_simp

lemma digit_char_decimal: "d < 10 \<Longrightarrow> digit_char d \<in> set ''0123456789''"
proof -
  assume d: "d < 10"
  have "[0 ..< 10] = [0, 1, 2, 3, 4, 5, 6, 7, 8, 9 :: nat]"
    by (simp add: upt_conv_Cons)
  then have t: "map digit_char [0 ..< 10] = ''0123456789''"
    by (simp only: digit_char_table)
  have "map digit_char [0 ..< 10] ! d = digit_char d"
    using d by (simp del: upt_Suc)
  moreover have "map digit_char [0 ..< 10] ! d \<in> set (map digit_char [0 ..< 10])"
    using d by (intro nth_mem) simp
  ultimately show ?thesis by (simp only: t)
qed

lemma str_nat_decimal: "set (str_nat n) \<subseteq> set ''0123456789''"
proof (induction n rule: str_nat.induct)
  case (1 n)
  show ?case
  proof (cases "n < 10")
    case True
    then show ?thesis
      using digit_char_decimal [of n] by (simp add: str_nat.simps [of n])
  next
    case False
    have "digit_char (n mod 10) \<in> set ''0123456789''"
      by (rule digit_char_decimal) simp
    then show ?thesis
      using False 1 by (simp add: str_nat.simps [of n])
  qed
qed

lemma str_nat_nonempty: "str_nat n \<noteq> []"
  by (simp add: str_nat.simps [of n])

lemma length_str_nat_hundreds: "100 \<le> n \<Longrightarrow> 3 \<le> length (str_nat n)"
proof -
  assume n: "100 \<le> n"
  then have a: "\<not> n < 10" and b: "\<not> n div 10 < 10" by auto
  have "str_nat n = str_nat (n div 10 div 10) @ [digit_char (n div 10 mod 10), digit_char (n mod 10)]"
    using a b str_nat.simps [of n] str_nat.simps [of "n div 10"] by simp
  moreover have "1 \<le> length (str_nat (n div 10 div 10))"
    using str_nat_nonempty [of "n div 10 div 10"] by (cases "str_nat (n div 10 div 10)") auto
  ultimately show ?thesis by simp
qed

lemma zfill_two_digits: "h < 100 \<Longrightarrow> zfill 2 (str_nat h) = two_digits h"
  using format_0d_two [of "int h"] by (simp add: format_0d_def)

lemma srt_time_field_short: "n < 360000000 \<Longrightarrow> srt_time_field n = srt_timestamp n"
proof -
  assume "n < 360000000"
  then have "n div 3600000 < 100" by simp
  then show ?thesis
    by (simp add: srt_time_field_def srt_timestamp_def zfill_two_digits)
qed

lemma srt_time_field_long:
  assumes "360000000 \<le> n"
  shows "srt_time_field n
         = str_nat (n div 3600000) @ '':'' @ two_digits (n div 60000 mod 60) @ '':''
           @ two_digits (n div 1000 mod 60) @ '','' @ three_digits (n mod 1000)"
    and "3 \<le> length (str_nat (n div 3600000))"
proof -
  have "100 \<le> n div 3600000" using assms by simp
  then show l: "3 \<le> length (str_nat (n div 3600000))"
    by (rule length_str_nat_hundreds)
  then have "zfill 2 (str_nat (n div 3600000)) = str_nat (n div 3600000)"
    by (simp add: zfill_def)
  then show "srt_time_field n
         = str_nat (n div 3600000) @ '':'' @ two_digits (n div 60000 mod 60) @ '':''
           @ two_digits (n div 1000 mod 60) @ '','' @ three_digits (n mod 1000)"
    by (simp add: srt_time_field_def)
qed

lemma srt_time_nonneg:
  assumes "0 \<le> ms"
  shows "milliseconds_to_srt_time ms = srt_time_field (nat \<lfloor>ms\<rfloor>)"
proof -
  define n where "n = \<lfloor>ms\<rfloor>"
  have n0: "0 \<le> n" using assms by (simp add: n_def)
  define ms1 where "ms1 = py_mod ms 3600000"
  define ms2 where "ms2 = py_mod ms1 60000"
  have h: "py_int (py_floordiv ms 3600000) = n div 3600000"
    using py_int_floordiv [of 3600000 ms] by (simp add: n_def)
  have f1: "\<lfloor>ms1\<rfloor> = n mod 3600000"
    using floor_py_mod [of 3600000 ms] by (simp add: ms1_def n_def)
  have m: "py_int (py_floordiv ms1 60000) = n mod 3600000 div 60000"
    using py_int_floordiv [of 60000 ms1] by (simp add: f1)
  have f2: "\<lfloor>ms2\<rfloor> = n mod 60000"
    using floor_py_mod [of 60000 ms1] by (simp add: ms2_def f1 mod_mod_cancel)
  have s: "py_int (py_floordiv ms2 1000) = n mod 60000 div 1000"
    using py_int_floordiv [of 1000 ms2] by (simp add: f2)
  have "0 \<le> py_mod ms2 1000" by (rule py_mod_nonneg) simp
  then have u: "py_int (py_mod ms2 1000) = n mod 1000"
    using floor_py_mod [of 1000 ms2] by (simp add: py_int_def f2 mod_mod_cancel)
  define k where "k = nat n"
  have nk: "n = int k" using n0 by (simp add: k_def)
  have hb: "n div 3600000 = int (k div 3600000)"
    by (simp add: nk zdiv_int)
  have "k mod (60000 * 60) div 60000 = k div 60000 mod 60" by (rule mod_mult_div)
  then have "int (k mod 3600000 div 60000) = int (k div 60000 mod 60)" by simp
  then have mb: "n mod 3600000 div 60000 = int (k div 60000 mod 60)"
    by (simp add: nk zdiv_int zmod_int)
  have "k mod (1000 * 60) div 1000 = k div 1000 mod 60" by (rule mod_mult_div)
  then have "int (k mod 60000 div 1000) = int (k div 1000 mod 60)" by simp
  then have sb: "n mod 60000 div 1000 = int (k div 1000 mod 60)"
    by (simp add: nk zdiv_int zmod_int)
  have ub: "n mod 1000 = int (k mod 1000)"
    by (simp add: nk zmod_int)
  have e1: "format_0d 2 (int (k div 3600000)) = zfill 2 (str_nat (k div 3600000))"
    by (simp add: format_0d_def)
  have e2: "format_0d 2 (int (k div 60000 mod 60)) = two_digits (k div 60000 mod 60)"
    using format_0d_two [of "int (k div 60000 mod 60)"] by simp
  have e3: "format_0d 2 (int (k div 1000 mod 60)) = two_digits (k div 1000 mod 60)"
    using format_0d_two [of "int (k div 1000 mod 60)"] by simp
  have e4: "format_0d 3 (int (k mod 1000)) = three_digits (k mod 1000)"
    using format_0d_three [of "int (k mod 1000)"] by simp
  show ?thesis
    unfolding milliseconds_to_srt_time_def Let_def ms1_def [symmetric] ms2_def [symmetric]
      h m s u hb mb sb ub srt_time_field_def e1 e2 e3 e4 n_def [symmetric] k_def [symmetric]
    by (rule refl)
qed

lemma cue_of_nonneg:
  assumes "0 \<le> cue_start p" "0 \<le> cue_end p"
  shows "cue_of k p
         = srt_block_long k (nat \<lfloor>cue_start p\<rfloor>) (nat \<lfloor>cue_end p\<rfloor>)
             (strip (entry_text (snd p)))"
proof -
  have "milliseconds_to_srt_time (cue_start p) = srt_time_field (nat \<lfloor>cue_start p\<rfloor>)"
    using assms(1) by (rule srt_time_nonneg)
  moreover have "milliseconds_to_srt_time (cue_end p) = srt_time_field (nat \<lfloor>cue_end p\<rfloor>)"
    using assms(2) by (rule srt_time_nonneg)
  ultimately show ?thesis
    by (simp add: cue_of_def write_cue_def srt_block_long_def cue_start_def cue_end_def)
qed

section \<open>Claims about the timeline reassembler\<close>




text \<open>
  C9, as the claim states it, fails: the format \<^verbatim>\<open>{hours:02d}\<close> pads to two digits but
  does not cut, so that a cue at 100 hours has three digits of hours and a timing line that
  is not of the form \<^verbatim>\<open>HH:MM:SS,mmm\<close>.
\<close>

theorem srt_hours_counterexample:
  "milliseconds_to_srt_time 360000000 = ''100:00:00,000''
   \<and> length (milliseconds_to_srt_time 360000000) = 13
   \<and> generate_srt example_100h
       = ''1'' @ [CHR 0x0A] @ ''100:00:00,000 --> 100:00:01,000'' @ [CHR 0x0A]
         @ ''hi'' @ [CHR 0x0A] @ [CHR 0x0A]"
proof -
  have t: "milliseconds_to_srt_time 360000000 = ''100:00:00,000''"
    by code_simp
  have g: "generate_srt example_100h
       = ''1'' @ [CHR 0x0A] @ ''100:00:00,000 --> 100:00:01,000'' @ [CHR 0x0A]
         @ ''hi'' @ [CHR 0x0A] @ [CHR 0x0A]"
    by code_simp
  show ?thesis using t g by simp
qed

text \<open>
  C9, amended. The file is the sequence of the blocks of the emitted cues, the block at
  position \<open>j\<close> carrying the index \<open>j + 1\<close>. For every emitted cue whose start and end
  are not negative, the block is the index on a line, the timing line of the two time
  fields of the whole milliseconds of start and end joined by \<^verbatim>\<open> --> \<close>, the text on a
  line, and a blank line. A time field has two digits of minutes, two of seconds and three
  of milliseconds. Below 100 hours it is of the exact form \<^verbatim>\<open>HH:MM:SS,mmm\<close>, twelve
  characters with two digits of hours; from 100 hours on its hours are the decimal number
  of hours, three digits or more. The witness is a file with a cue at 99 hours and a cue
  at 100 hours.
\<close>

theorem srt_block_format:
  "(let kept = concat (map kept_entries segs)
    in generate_srt segs = concat (map (\<lambda>j. cue_of (Suc j) (kept ! j)) [0 ..< length kept])
       \<and> (\<forall>j < length kept.
             (0 \<le> cue_start (kept ! j) \<and> 0 \<le> cue_end (kept ! j) \<longrightarrow>
                cue_of (Suc j) (kept ! j)
                = srt_block_long (Suc j) (nat \<lfloor>cue_start (kept ! j)\<rfloor>)
                    (nat \<lfloor>cue_end (kept ! j)\<rfloor>) (strip (entry_text (snd (kept ! j)))))
             \<and> (below_100_hours (cue_start (kept ! j)) \<and> below_100_hours (cue_end (kept ! j)) \<longrightarrow>
                cue_of (Suc j) (kept ! j)
                = srt_block (Suc j) (nat \<lfloor>cue_start (kept ! j)\<rfloor>)
                    (nat \<lfloor>cue_end (kept ! j)\<rfloor>) (strip (entry_text (snd (kept ! j)))))))
   \<and> (n < 360000000 \<longrightarrow> srt_time_field n = srt_timestamp n \<and> length (srt_time_field n) = 12)
   \<and> (360000000 \<le> m \<longrightarrow>
        srt_time_field m
        = str_nat (m div 3600000) @ '':'' @ two_digits (m div 60000 mod 60) @ '':''
          @ two_digits (m div 1000 mod 60) @ '','' @ three_digits (m mod 1000)
        \<and> 3 \<le> length (str_nat (m div 3600000))
        \<and> set (str_nat (m div 3600000)) \<subseteq> set ''0123456789''
        \<and> decimal_value (str_nat (m div 3600000)) = m div 3600000)"
proof -
  define kept where "kept = concat (map kept_entries segs)"
  have g: "generate_srt segs = concat (map (\<lambda>j. cue_of (Suc j) (kept ! j)) [0 ..< length kept])"
    by (simp add: kept_def generate_srt_closed cues_from_nth)
  have a: "cue_of k p
           = srt_block_long k (nat \<lfloor>cue_start p\<rfloor>) (nat \<lfloor>cue_end p\<rfloor>)
               (strip (entry_text (snd p)))"
    if "0 \<le> cue_start p \<and> 0 \<le> cue_end p" for k p
    using that by (intro cue_of_nonneg) simp_all
  have b: "cue_of k p
           = srt_block k (nat \<lfloor>cue_start p\<rfloor>) (nat \<lfloor>cue_end p\<rfloor>)
               (strip (entry_text (snd p)))"
    if "below_100_hours (cue_start p) \<and> below_100_hours (cue_end p)" for k p
    using that by (intro cue_of_in_range) simp_all
  have c: "srt_time_field n = srt_timestamp n \<and> length (srt_time_field n) = 12"
    if "n < 360000000"
    using that by (simp add: srt_time_field_short length_srt_timestamp)
  have d: "srt_time_field m
        = str_nat (m div 3600000) @ '':'' @ two_digits (m div 60000 mod 60) @ '':''
          @ two_digits (m div 1000 mod 60) @ '','' @ three_digits (m mod 1000)
        \<and> 3 \<le> length (str_nat (m div 3600000))
        \<and> set (str_nat (m div 3600000)) \<subseteq> set ''0123456789''
        \<and> decimal_value (str_nat (m div 3600000)) = m div 3600000"
    if "360000000 \<le> m"
    using srt_time_field_long [OF that] str_nat_decimal [of "m div 3600000"]
      decimal_value_str_nat [of "m div 3600000"]
    by blast
  show ?thesis
    unfolding Let_def kept_def [symmetric]
    using g a b c d by blast
qed

theorem srt_block_format_witness:
  "generate_srt example_99h_100h
     = srt_block 1 356400000 356401000 ''a'' @ srt_block_long 2 360000000 360001000 ''b''
   \<and> generate_srt example_99h_100h
       = ''1'' @ [CHR 0x0A] @ ''99:00:00,000 --> 99:00:01,000'' @ [CHR 0x0A]
         @ ''a'' @ [CHR 0x0A] @ [CHR 0x0A]
         @ ''2'' @ [CHR 0x0A] @ ''100:00:00,000 --> 100:00:01,000'' @ [CHR 0x0A]
         @ ''b'' @ [CHR 0x0A] @ [CHR 0x0A]
   \<and> below_100_hours 356400000 \<and> below_100_hours 356401000
   \<and> \<not> below_100_hours 360000000
   \<and> srt_time_field 356400000 = srt_timestamp 356400000
   \<and> length (srt_time_field 356400000) = 12
   \<and> srt_time_field 360000000
       = str_nat 100 @ '':'' @ two_digits 0 @ '':'' @ two_digits 0 @ '','' @ three_digits 0
   \<and> 3 \<le> length (str_nat 100)
   \<and> decimal_value (str_nat 100) = 100"
proof -
  let ?a = "\<lparr>entry_start = 0, entry_end = 1, entry_text = ''a''\<rparr>"
  let ?b = "\<lparr>entry_start = 3600, entry_end = 3601, entry_text = ''b''\<rparr>"
  let ?kept = "[(356400000, ?a), (356400000, ?b)] :: (real \<times> entry) list"
  have k: "concat (map kept_entries example_99h_100h) = ?kept"
    by (simp add: example_99h_100h_def kept_entries_def get_segments_def strip_def is_space_def)
  note t = srt_block_format [of example_99h_100h 356400000 360000000, unfolded Let_def k]
  have g: "generate_srt example_99h_100h
           = concat (map (\<lambda>j. cue_of (Suc j) (?kept ! j)) [0 ..< length ?kept])"
    using t [THEN conjunct1, THEN conjunct1] .
  have per_cue: "\<forall>j < length ?kept.
             (0 \<le> cue_start (?kept ! j) \<and> 0 \<le> cue_end (?kept ! j) \<longrightarrow>
                cue_of (Suc j) (?kept ! j)
                = srt_block_long (Suc j) (nat \<lfloor>cue_start (?kept ! j)\<rfloor>)
                    (nat \<lfloor>cue_end (?kept ! j)\<rfloor>) (strip (entry_text (snd (?kept ! j)))))
             \<and> (below_100_hours (cue_start (?kept ! j)) \<and> below_100_hours (cue_end (?kept ! j)) \<longrightarrow>
                cue_of (Suc j) (?kept ! j)
                = srt_block (Suc j) (nat \<lfloor>cue_start (?kept ! j)\<rfloor>)
                    (nat \<lfloor>cue_end (?kept ! j)\<rfloor>) (strip (entry_text (snd (?kept ! j)))))"
    using t [THEN conjunct1, THEN conjunct2] .
  have short: "srt_time_field 356400000 = srt_timestamp 356400000
               \<and> length (srt_time_field 356400000) = 12"
    using t [THEN conjunct2, THEN conjunct1] by auto
  have long: "srt_time_field 360000000
       = str_nat 100 @ '':'' @ two_digits 0 @ '':'' @ two_digits 0 @ '','' @ three_digits 0
       \<and> 3 \<le> length (str_nat 100)
       \<and> decimal_value (str_nat 100) = 100"
    using t [THEN conjunct2, THEN conjunct2] by auto
  have sa: "strip ''a'' = ''a''" and sb: "strip ''b'' = ''b''"
    by (simp_all add: strip_def is_space_def)
  have c0: "cue_of (Suc 0) (356400000, ?a) = srt_block 1 356400000 356401000 ''a''"
    using per_cue [rule_format, of 0, THEN conjunct2]
    by (simp add: cue_start_def cue_end_def below_100_hours_def sa)
  have c1: "cue_of (Suc (Suc 0)) (356400000, ?b) = srt_block_long 2 360000000 360001000 ''b''"
    using per_cue [rule_format, of 1, THEN conjunct1]
    by (simp add: cue_start_def cue_end_def sb numeral_2_eq_2)
  have whole: "generate_srt example_99h_100h
      = srt_block 1 356400000 356401000 ''a'' @ srt_block_long 2 360000000 360001000 ''b''"
    using g c0 c1 by (simp add: upt_conv_Cons numeral_2_eq_2)
  have lit: "generate_srt example_99h_100h
       = ''1'' @ [CHR 0x0A] @ ''99:00:00,000 --> 99:00:01,000'' @ [CHR 0x0A]
         @ ''a'' @ [CHR 0x0A] @ [CHR 0x0A]
         @ ''2'' @ [CHR 0x0A] @ ''100:00:00,000 --> 100:00:01,000'' @ [CHR 0x0A]
         @ ''b'' @ [CHR 0x0A] @ [CHR 0x0A]"
    by code_simp
  have r: "below_100_hours 356400000 \<and> below_100_hours 356401000
           \<and> \<not> below_100_hours 360000000"
    by (simp add: below_100_hours_def)
  show ?thesis
    using whole lit r short long by blast
qed

section \<open>The retry loop\<close>

lemma whisper_attempt_trace:
  "trace (snd (whisper_attempt env f w)) = trace w @ [EngineCall f]"
  by (simp add: whisper_attempt_def Let_def split: option.splits file_content.splits json.splits)


lemma retry_loop_fails:
  assumes inv: "P (files w)"
    and step: "\<And>w. P (files w) \<Longrightarrow>
                 isl (fst (whisper_attempt env f w)) \<and> P (files (snd (whisper_attempt env f w)))"
  shows "fst (retry_loop env f m as w) = empty_result
         \<and> trace (snd (retry_loop env f m as w)) = trace w @ concat (map (retry_events f m) as)
         \<and> P (files (snd (retry_loop env f m as w)))"
  using inv
proof (induction as arbitrary: w)
  case Nil
  then show ?case by simp
next
  case (Cons a as)
  obtain r w' where att: "whisper_attempt env f w = (r, w')" by (cases "whisper_attempt env f w")
  have "isl r" and p': "P (files w')"
    using step [OF Cons.prems] by (simp_all add: att)
  then obtain e where r: "r = Inl e" by (cases r) auto
  have tr: "trace w' = trace w @ [EngineCall f]"
    using whisper_attempt_trace [of env f w] by (simp add: att)
  define w'' where "w'' = (if a < m - 1 then w'\<lparr>trace := trace w' @ [Sleep 5]\<rparr> else w')"
  have p'': "P (files w'')" using p' by (simp add: w''_def)
  have tr'': "trace w'' = trace w @ retry_events f m a"
    by (simp add: w''_def tr retry_events_def)
  have "retry_loop env f m (a # as) w = retry_loop env f m as w''"
    by (simp add: att r w''_def)
  then show ?case
    using Cons.IH [OF p''] by (simp add: tr'')
qed

lemma retry_events_trace:
  "concat (map (retry_events f m) [k ..< m]) = retry_trace f (m - k)"
proof (induction "m - k" arbitrary: k)
  case 0
  then show ?case by simp
next
  case (Suc n)
  then have lt: "k < m" by simp
  have up: "[k ..< m] = k # [Suc k ..< m]" using lt by (simp add: upt_conv_Cons)
  have ih: "concat (map (retry_events f m) [Suc k ..< m]) = retry_trace f (m - Suc k)"
    using Suc.hyps(1) [of "Suc k"] Suc.hyps(2) by simp
  show ?case
  proof (cases "k < m - 1")
    case True
    then obtain j where j: "m - k = Suc (Suc j)"
      by (metis Suc.hyps(2) Suc_diff_Suc Suc_lessD less_diff_conv plus_1_eq_Suc add.commute
          zero_less_diff gr0_implies_Suc)
    then have "m - Suc k = Suc j" by simp
    then show ?thesis using True by (simp add: up ih retry_events_def j)
  next
    case False
    then have "m - k = Suc 0" and "m - Suc k = 0" using lt by simp_all
    then show ?thesis using False by (simp add: up ih retry_events_def)
  qed
qed

lemma count_retry_trace: "count_list (retry_trace f m) (EngineCall f) = m"
  by (induction f m rule: retry_trace.induct) simp_all

lemma transcribe_fails:
  assumes inv: "P (files w)"
    and step: "\<And>w. P (files w) \<Longrightarrow>
                 isl (fst (whisper_attempt env f w)) \<and> P (files (snd (whisper_attempt env f w)))"
  shows "fst (transcribe_with_whisper env f m w) = empty_result
         \<and> trace (snd (transcribe_with_whisper env f m w)) = trace w @ retry_trace f m
         \<and> P (files (snd (transcribe_with_whisper env f m w)))"
  using retry_loop_fails [of P w env f m "[0 ..< m]", OF inv step]
    retry_events_trace [of f m 0]
  by (simp add: transcribe_with_whisper_def)



section \<open>File names\<close>

lemma digit_char_not_dot: "d < 10 \<Longrightarrow> digit_char d \<noteq> CHR ''.''"
proof
  assume d: "d < 10" and "digit_char d = CHR ''.''"
  then have "of_char (char_of (48 + d) :: char) = (of_char (CHR ''.'') :: nat)"
    by (simp add: digit_char_def)
  then show False using d by simp
qed

lemma str_nat_no_dot: "CHR ''.'' \<notin> set (str_nat n)"
proof (induction n rule: str_nat.induct)
  case (1 n)
  show ?case
  proof (cases "n < 10")
    case True
    then show ?thesis
      using digit_char_not_dot [of n] by (simp add: str_nat.simps [of n])
  next
    case False
    then show ?thesis
      using 1 digit_char_not_dot [of "n mod 10"] by (simp add: str_nat.simps [of n])
  qed
qed

lemma segment_stem_no_dot: "CHR ''.'' \<notin> set (segment_stem i)"
  using str_nat_no_dot [of i] by (simp add: segment_stem_def format_0d_def zfill_def)

lemma replace_wav_suffix: "CHR ''.'' \<notin> set s \<Longrightarrow> replace_wav (s @ ''.wav'') = s"
  by (induction s) auto

lemma whisper_json_file: "replace_wav (segment_wav i) @ ''.json'' = segment_json i"
  using replace_wav_suffix [OF segment_stem_no_dot, of i]
  by (simp add: segment_wav_def segment_json_def)

lemma wav_not_json: "segment_wav i \<noteq> segment_json j"
proof
  assume "segment_wav i = segment_json j"
  then have "last (segment_wav i) = last (segment_json j)" by simp
  then show False by (simp add: segment_wav_def segment_json_def)
qed

section \<open>One segment of the driver\<close>

lemma process_segment_todo:
  assumes todo: "\<not> check_segment_completed i (files (world st))"
    and slice: "files (world st) (segment_wav i) = None \<longrightarrow> slicer env (world st) (segment_wav i)"
  shows "process_segment env i iv st =
     (case transcribe_with_whisper env (segment_wav i) 3 (sliced i iv (world st)) of
        (r, w2) \<Rightarrow>
          Inr ((if get_segments r \<noteq> [] then st\<lparr>completed_count := completed_count st + 1\<rparr>
                else st\<lparr>failed_count := failed_count st + 1\<rparr>)
               \<lparr>world := w2,
                all_segments := all_segments st @
                  [\<lparr>segment_index = i, segment_start_ms = fst iv, segment_end_ms = snd iv,
                    whisper_result = r\<rparr>]\<rparr>))"
  using todo slice
  by (simp add: process_segment_def Let_def cut_audio_segment_def sliced_def)

lemma process_segment_exhausted:
  assumes todo: "\<not> check_segment_completed i (files (world st))"
    and slice: "files (world st) (segment_wav i) = None \<longrightarrow> slicer env (world st) (segment_wav i)"
    and inv: "P (files (sliced i iv (world st)))"
    and step: "\<And>w. P (files w) \<Longrightarrow>
                 isl (fst (whisper_attempt env (segment_wav i) w))
                 \<and> P (files (snd (whisper_attempt env (segment_wav i) w)))"
  shows "\<exists>w2. process_segment env i iv st =
           Inr (st\<lparr>failed_count := failed_count st + 1,
                   world := w2,
                   all_segments := all_segments st @
                     [\<lparr>segment_index = i, segment_start_ms = fst iv, segment_end_ms = snd iv,
                       whisper_result = empty_result\<rparr>]\<rparr>)
           \<and> trace w2 = trace (sliced i iv (world st)) @ retry_trace (segment_wav i) 3
           \<and> P (files w2)"
proof -
  obtain r w2 where t: "transcribe_with_whisper env (segment_wav i) 3 (sliced i iv (world st)) = (r, w2)"
    by (cases "transcribe_with_whisper env (segment_wav i) 3 (sliced i iv (world st))")
  have "r = empty_result"
    and "trace w2 = trace (sliced i iv (world st)) @ retry_trace (segment_wav i) 3"
    and "P (files w2)"
    using transcribe_fails [of P "sliced i iv (world st)" env "segment_wav i" 3, OF inv step]
    by (simp_all add: t)
  then show ?thesis
    using process_segment_todo [OF todo slice, of iv]
    by (intro exI [of _ w2]) (simp add: t empty_result_def get_segments_def)
qed



section \<open>Claims about retry and persistence\<close>

text \<open>
  C3. If the engine fails on every attempt for a segment, \<^verbatim>\<open>transcribe_with_whisper\<close>
  calls it exactly \<^verbatim>\<open>max_retries\<close> times, with a sleep of five seconds between two
  consecutive attempts, and returns the empty transcript. In the driver, which leaves the
  bound at 3, a segment that is not yet done and whose slice is there or can be cut then
  gets three engine calls and two sleeps, yields no cue, adds one to the count of failures
  and nothing to the other counts, and the loop goes on with the next segment.
\<close>

theorem retry_exhaustion:
  assumes fail: "\<forall>w. isl (fst (whisper_attempt env (segment_wav i) w))"
    and todo: "\<not> check_segment_completed i (files (world st))"
    and slice: "files (world st) (segment_wav i) = None \<longrightarrow> slicer env (world st) (segment_wav i)"
  shows "fst (transcribe_with_whisper env (segment_wav i) max_retries w) = empty_result
     \<and> trace (snd (transcribe_with_whisper env (segment_wav i) max_retries w))
         = trace w @ retry_trace (segment_wav i) max_retries
     \<and> count_list (retry_trace (segment_wav i) max_retries) (EngineCall (segment_wav i))
         = max_retries
     \<and> (\<exists>st'. process_segment env i iv st = Inr st'
          \<and> main_loop env i (iv # rest) st = main_loop env (Suc i) rest st'
          \<and> all_segments st' = all_segments st @
               [\<lparr>segment_index = i, segment_start_ms = fst iv, segment_end_ms = snd iv,
                 whisper_result = empty_result\<rparr>]
          \<and> generate_srt [last (all_segments st')] = []
          \<and> failed_count st' = failed_count st + 1
          \<and> completed_count st' = completed_count st
          \<and> skipped_count st' = skipped_count st
          \<and> trace (world st')
              = trace (sliced i iv (world st))
                @ [EngineCall (segment_wav i), Sleep 5, EngineCall (segment_wav i), Sleep 5,
                   EngineCall (segment_wav i)])"
proof -
  have step: "isl (fst (whisper_attempt env (segment_wav i) w))
              \<and> (\<lambda>d. True) (files (snd (whisper_attempt env (segment_wav i) w)))" for w
    using fail by simp
  have a: "fst (transcribe_with_whisper env (segment_wav i) max_retries w) = empty_result
     \<and> trace (snd (transcribe_with_whisper env (segment_wav i) max_retries w))
         = trace w @ retry_trace (segment_wav i) max_retries"
    using transcribe_fails [of "\<lambda>d. True" w env "segment_wav i" max_retries] step by simp
  obtain w2 where p: "process_segment env i iv st =
           Inr (st\<lparr>failed_count := failed_count st + 1,
                   world := w2,
                   all_segments := all_segments st @
                     [\<lparr>segment_index = i, segment_start_ms = fst iv, segment_end_ms = snd iv,
                       whisper_result = empty_result\<rparr>]\<rparr>)"
    and tr: "trace w2 = trace (sliced i iv (world st)) @ retry_trace (segment_wav i) 3"
    using process_segment_exhausted [of i st env "\<lambda>d. True" iv, OF todo slice] step by auto
  have three: "retry_trace (segment_wav i) 3
               = [EngineCall (segment_wav i), Sleep 5, EngineCall (segment_wav i), Sleep 5,
                  EngineCall (segment_wav i)]"
    by (simp add: eval_nat_numeral)
  have srt: "generate_srt [\<lparr>segment_index = i, segment_start_ms = fst iv, segment_end_ms = snd iv,
                 whisper_result = empty_result\<rparr>] = []"
    by (simp add: generate_srt_def empty_result_def get_segments_def)
  show ?thesis
    using a count_retry_trace [of "segment_wav i" max_retries]
    by (simp add: p tr three srt)
qed

theorem retry_exhaustion_witness:
  "fst (transcribe_with_whisper env_down (segment_wav 0) 3 \<lparr>files = Map.empty, trace = []\<rparr>)
     = empty_result
   \<and> trace (snd (transcribe_with_whisper env_down (segment_wav 0) 3
        \<lparr>files = Map.empty, trace = []\<rparr>))
       = [EngineCall (segment_wav 0), Sleep 5, EngineCall (segment_wav 0), Sleep 5,
          EngineCall (segment_wav 0)]
   \<and> (\<exists>st'. process_segment env_down 0 (0, 1000) (initial_state Map.empty) = Inr st'
         \<and> main_loop env_down 0 [(0, 1000), (5000, 6000)] (initial_state Map.empty)
             = main_loop env_down 1 [(5000, 6000)] st'
         \<and> failed_count st' = 1
         \<and> trace (world st')
             = [SlicerCall (segment_wav 0) 0 1000,
                EngineCall (segment_wav 0), Sleep 5, EngineCall (segment_wav 0), Sleep 5,
                EngineCall (segment_wav 0)])"
proof -
  have h1: "\<forall>w. isl (fst (whisper_attempt env_down (segment_wav 0) w))"
    by (simp add: whisper_attempt_def env_down_def Let_def)
  have h2: "\<not> check_segment_completed 0 (files (world (initial_state Map.empty)))"
    by (simp add: check_segment_completed_def initial_state_def)
  have h3: "files (world (initial_state Map.empty)) (segment_wav 0) = None
            \<longrightarrow> slicer env_down (world (initial_state Map.empty)) (segment_wav 0)"
    by (simp add: env_down_def)
  have three: "retry_trace (segment_wav 0) 3
               = [EngineCall (segment_wav 0), Sleep 5, EngineCall (segment_wav 0), Sleep 5,
                  EngineCall (segment_wav 0)]"
    by (simp add: eval_nat_numeral)
  have sl: "trace (sliced 0 (0, 1000) (world (initial_state Map.empty)))
            = [SlicerCall (segment_wav 0) 0 1000]"
    by (simp add: sliced_def initial_state_def)
  have f0: "failed_count (initial_state Map.empty) = 0"
    by (simp add: initial_state_def)
  show ?thesis
    using retry_exhaustion [OF h1 h2 h3, of 3 "\<lparr>files = Map.empty, trace = []\<rparr>" "(0, 1000)"
        "[(5000, 6000)]"]
    by (auto simp: three sl f0)
qed




section \<open>The events of a run\<close>

lemma segment_stem_inj: "segment_stem i = segment_stem j \<Longrightarrow> i = j"
proof -
  assume "segment_stem i = segment_stem j"
  then have "zfill 4 (str_nat i) = zfill 4 (str_nat j)"
    by (simp add: segment_stem_def format_0d_def)
  then have "decimal_value (zfill 4 (str_nat i)) = decimal_value (zfill 4 (str_nat j))"
    by simp
  then show ?thesis
    by (simp add: zfill_def decimal_value_zeros decimal_value_str_nat)
qed

lemma segment_wav_inj: "segment_wav i = segment_wav j \<Longrightarrow> i = j"
  by (rule segment_stem_inj) (simp add: segment_wav_def)

lemma retry_loop_events:
  "\<exists>evs. trace (snd (retry_loop env f m as w)) = trace w @ evs
         \<and> (\<forall>e \<in> set evs. e = EngineCall f \<or> e = Sleep 5)"
proof (induction as arbitrary: w)
  case Nil
  then show ?case by simp
next
  case (Cons a as)
  obtain r w' where att: "whisper_attempt env f w = (r, w')" by (cases "whisper_attempt env f w")
  have tr: "trace w' = trace w @ [EngineCall f]"
    using whisper_attempt_trace [of env f w] by (simp add: att)
  show ?case
  proof (cases r)
    case (Inr res)
    then show ?thesis by (simp add: att tr)
  next
    case (Inl e)
    define w'' where "w'' = (if a < m - 1 then w'\<lparr>trace := trace w' @ [Sleep 5]\<rparr> else w')"
    obtain evs where evs: "trace (snd (retry_loop env f m as w'')) = trace w'' @ evs"
      "\<forall>e \<in> set evs. e = EngineCall f \<or> e = Sleep 5"
      using Cons.IH [of w''] by blast
    obtain evs' where evs': "trace w'' = trace w @ evs'"
      "\<forall>e \<in> set evs'. e = EngineCall f \<or> e = Sleep 5"
      by (cases "a < m - 1") (simp_all add: w''_def tr)
    have "retry_loop env f m (a # as) w = retry_loop env f m as w''"
      by (simp add: att Inl w''_def)
    then have "trace (snd (retry_loop env f m (a # as) w)) = trace w @ (evs' @ evs)"
      using evs(1) evs'(1) by simp
    moreover have "\<forall>e \<in> set (evs' @ evs). e = EngineCall f \<or> e = Sleep 5"
      using evs(2) evs'(2) by auto
    ultimately show ?thesis by blast
  qed
qed

lemma process_segment_events:
  assumes "process_segment env i iv st = Inr st'"
  shows "\<exists>evs x. trace (world st') = trace (world st) @ evs
           \<and> (\<forall>e \<in> set evs. \<forall>j. about j e \<longrightarrow> j = i)
           \<and> all_segments st' = all_segments st @ [x]"
proof (cases "check_segment_completed i (files (world st))")
  case True
  then have "st' = st\<lparr>skipped_count := skipped_count st + 1,
                       all_segments := all_segments st @
                         [\<lparr>segment_index = i, segment_start_ms = fst iv,
                           segment_end_ms = snd iv,
                           whisper_result = load_existing_result i (files (world st))\<rparr>]\<rparr>"
    using assms by (simp add: process_segment_def Let_def)
  then show ?thesis by simp
next
  case False
  have ok: "files (world st) (segment_wav i) = None \<longrightarrow> slicer env (world st) (segment_wav i)"
    using assms False
    by (auto simp: process_segment_def Let_def cut_audio_segment_def split: if_splits)
  obtain r w2 where t: "transcribe_with_whisper env (segment_wav i) 3 (sliced i iv (world st)) = (r, w2)"
    by (cases "transcribe_with_whisper env (segment_wav i) 3 (sliced i iv (world st))")
  obtain evs where evs: "trace w2 = trace (sliced i iv (world st)) @ evs"
    "\<forall>e \<in> set evs. e = EngineCall (segment_wav i) \<or> e = Sleep 5"
    using retry_loop_events [of env "segment_wav i" 3 "[0 ..< 3]" "sliced i iv (world st)"]
    by (auto simp: transcribe_with_whisper_def [symmetric] t)
  obtain evs0 where evs0: "trace (sliced i iv (world st)) = trace (world st) @ evs0"
    "\<forall>e \<in> set evs0. e = SlicerCall (segment_wav i) (fst iv) (snd iv)"
    by (cases "files (world st) (segment_wav i) = None") (simp_all add: sliced_def)
  have w: "world st' = w2"
    and a: "all_segments st' = all_segments st @
             [\<lparr>segment_index = i, segment_start_ms = fst iv, segment_end_ms = snd iv,
               whisper_result = r\<rparr>]"
    using assms process_segment_todo [OF False ok, of iv] by (auto simp: t)
  have "trace (world st') = trace (world st) @ (evs0 @ evs)"
    by (simp add: w evs(1) evs0(1))
  moreover have "\<forall>e \<in> set (evs0 @ evs). \<forall>j. about j e \<longrightarrow> j = i"
    using evs(2) evs0(2) segment_wav_inj by (auto simp: about_def)
  ultimately show ?thesis using a by blast
qed

lemma main_loop_events:
  "main_loop env k segs st = Inr st' \<Longrightarrow>
   \<exists>evs xs. trace (world st') = trace (world st) @ evs
      \<and> (\<forall>e \<in> set evs. \<forall>j. about j e \<longrightarrow> k \<le> j \<and> j < k + length segs)
      \<and> all_segments st' = all_segments st @ xs \<and> length xs = length segs"
proof (induction segs arbitrary: k st)
  case Nil
  then show ?case by simp
next
  case (Cons iv rest)
  obtain st1 where p: "process_segment env k iv st = Inr st1"
    and m: "main_loop env (Suc k) rest st1 = Inr st'"
    using Cons.prems by (auto split: sum.splits)
  obtain evs1 x where e1: "trace (world st1) = trace (world st) @ evs1"
    "\<forall>e \<in> set evs1. \<forall>j. about j e \<longrightarrow> j = k"
    "all_segments st1 = all_segments st @ [x]"
    using process_segment_events [OF p] by blast
  obtain evs2 xs where e2: "trace (world st') = trace (world st1) @ evs2"
    "\<forall>e \<in> set evs2. \<forall>j. about j e \<longrightarrow> Suc k \<le> j \<and> j < Suc k + length rest"
    "all_segments st' = all_segments st1 @ xs" "length xs = length rest"
    using Cons.IH [OF m] by blast
  have "trace (world st') = trace (world st) @ (evs1 @ evs2)"
    by (simp add: e1(1) e2(1))
  moreover have "\<forall>e \<in> set (evs1 @ evs2). \<forall>j. about j e \<longrightarrow> k \<le> j \<and> j < k + length (iv # rest)"
    using e1(2) e2(2) by fastforce
  moreover have "all_segments st' = all_segments st @ (x # xs)"
    by (simp add: e1(3) e2(3))
  moreover have "length (x # xs) = length (iv # rest)"
    by (simp add: e2(4))
  ultimately show ?case by blast
qed

lemma main_loop_append:
  "main_loop env k (xs @ ys) st =
     (case main_loop env k xs st of
        Inl e \<Rightarrow> Inl e
      | Inr st1 \<Rightarrow> main_loop env (k + length xs) ys st1)"
  by (induction xs arbitrary: k st) (auto split: sum.splits)

lemma segment_json_inj: "segment_json i = segment_json j \<Longrightarrow> i = j"
  by (rule segment_stem_inj) (simp add: segment_json_def)

lemma first_segment_transcribed:
  "process_segment env_up 0 (0, 1000) (initial_state done_dir) = Inr mid_state"
proof -
  have j: "replace_wav (segment_wav 0) @ ''.json'' = segment_json 0"
    by (rule whisper_json_file)
  have ne: "segment_json 0 \<noteq> segment_json 1"
    using segment_json_inj [of 0 1] by auto
  have nw: "segment_wav 0 \<noteq> segment_json 1" "segment_wav 0 \<noteq> segment_json 0"
    by (rule wav_not_json)+
  have todo: "\<not> check_segment_completed 0 (files (world (initial_state done_dir)))"
    using ne by (simp add: check_segment_completed_def initial_state_def done_dir_def)
  have slice: "files (world (initial_state done_dir)) (segment_wav 0) = None
               \<longrightarrow> slicer env_up (world (initial_state done_dir)) (segment_wav 0)"
    by (simp add: env_up_def)
  have att: "whisper_attempt env_up (segment_wav 0) w
             = (Inr hi_result,
                w\<lparr>files := (files w)(segment_json 0 \<mapsto> JsonText (JObject hi_result)),
                  trace := trace w @ [EngineCall (segment_wav 0)]\<rparr>)" for w
    by (simp add: whisper_attempt_def env_up_def Let_def j hi_result_def)
  have t: "transcribe_with_whisper env_up (segment_wav 0) 3 w
           = (hi_result,
              w\<lparr>files := (files w)(segment_json 0 \<mapsto> JsonText (JObject hi_result)),
                trace := trace w @ [EngineCall (segment_wav 0)]\<rparr>)" for w
    by (simp add: transcribe_with_whisper_def upt_conv_Cons att)
  have g: "get_segments hi_result \<noteq> []"
    by (simp add: get_segments_def hi_result_def)
  show ?thesis
    using process_segment_todo [OF todo slice, of "(0, 1000)"] g nw
    by (simp add: t sliced_def initial_state_def done_dir_def mid_state_def)
qed

section \<open>Claim about skipping completed segments\<close>

text \<open>
  C2. For every segment index \<open>i\<close>: if, in the state \<open>st\<close> in which the driver reaches
  \<open>i\<close>, the result file of \<open>i\<close> exists and is not empty, then the pass for \<open>i\<close> only
  loads the persisted transcript into the results and adds one to the count of skipped
  segments; the world is as before, so neither the slicer nor the engine is called. In any
  later state of the run, the trace holds no call about the slice of \<open>i\<close> beyond those it
  held when the run began, and the result at position \<open>i\<close> is the loaded transcript.
\<close>

theorem skip_completed:
  assumes reach: "main_loop env 0 (take i segs) st0 = Inr st"
    and i: "i < length segs"
    and marker: "check_segment_completed i (files (world st))"
    and later: "i < n"
    and run: "main_loop env 0 (take n segs) st0 = Inr st'"
  shows "process_segment env i (segs ! i) st
           = Inr (st\<lparr>skipped_count := skipped_count st + 1,
                     all_segments := all_segments st @
                       [\<lparr>segment_index = i, segment_start_ms = fst (segs ! i),
                         segment_end_ms = snd (segs ! i),
                         whisper_result = load_existing_result i (files (world st))\<rparr>]\<rparr>)
         \<and> filter (about i) (trace (world st')) = filter (about i) (trace (world st0))
         \<and> all_segments st' ! (length (all_segments st0) + i)
             = \<lparr>segment_index = i, segment_start_ms = fst (segs ! i),
                segment_end_ms = snd (segs ! i),
                whisper_result = load_existing_result i (files (world st))\<rparr>"
proof -
  define x where "x = \<lparr>segment_index = i, segment_start_ms = fst (segs ! i),
                        segment_end_ms = snd (segs ! i),
                        whisper_result = load_existing_result i (files (world st))\<rparr>"
  define st1 where "st1 = st\<lparr>skipped_count := skipped_count st + 1,
                             all_segments := all_segments st @ [x]\<rparr>"
  define rest where "rest = drop (Suc i) (take n segs)"
  have p: "process_segment env i (segs ! i) st = Inr st1"
    using marker by (simp add: process_segment_def Let_def st1_def x_def)
  have split: "take n segs = take i segs @ (segs ! i) # rest"
  proof -
    have "i < length (take n segs)" using i later by simp
    then have "take n segs = take i (take n segs) @ (take n segs ! i) # drop (Suc i) (take n segs)"
      by (rule id_take_nth_drop)
    moreover have "take i (take n segs) = take i segs" using later by (simp add: min_def)
    moreover have "take n segs ! i = segs ! i" using later by simp
    ultimately show ?thesis by (simp add: rest_def)
  qed
  have len: "length (take i segs) = i" using i by simp
  have "main_loop env 0 (take n segs) st0 = main_loop env i ((segs ! i) # rest) st"
    unfolding split main_loop_append reach using len by simp
  then have m: "main_loop env (Suc i) rest st1 = Inr st'"
    using run p by simp
  obtain evs1 xs1 where e1: "trace (world st) = trace (world st0) @ evs1"
    "\<forall>e \<in> set evs1. \<forall>j. about j e \<longrightarrow> 0 \<le> j \<and> j < 0 + length (take i segs)"
    "all_segments st = all_segments st0 @ xs1" "length xs1 = length (take i segs)"
    using main_loop_events [OF reach] by blast
  obtain evs2 xs2 where e2: "trace (world st') = trace (world st1) @ evs2"
    "\<forall>e \<in> set evs2. \<forall>j. about j e \<longrightarrow> Suc i \<le> j \<and> j < Suc i + length rest"
    "all_segments st' = all_segments st1 @ xs2"
    using main_loop_events [OF m] by blast
  have n1: "filter (about i) evs1 = []"
    using e1(2) len by (fastforce simp: filter_empty_conv)
  have n2: "filter (about i) evs2 = []"
    using e2(2) by (fastforce simp: filter_empty_conv)
  have t1: "trace (world st1) = trace (world st)" by (simp add: st1_def)
  have f: "filter (about i) (trace (world st')) = filter (about i) (trace (world st0))"
    by (simp add: e2(1) t1 e1(1) n1 n2)
  have "all_segments st' = all_segments st0 @ xs1 @ x # xs2"
    by (simp add: e2(3) st1_def e1(3))
  moreover have "length xs1 = i" using e1(4) len by simp
  ultimately have "all_segments st' ! (length (all_segments st0) + i) = x"
    by (simp add: nth_append)
  then show ?thesis
    using p f by (simp add: st1_def x_def)
qed

theorem skip_completed_witness:
  "main_loop env_up 0 (take 1 [(0, 1000), (5000, 6000)]) (initial_state done_dir) = Inr mid_state
   \<and> check_segment_completed 1 (files (world mid_state))
   \<and> process_segment env_up 1 (5000, 6000) mid_state
       = Inr (mid_state\<lparr>skipped_count := 1,
                all_segments := all_segments mid_state @
                  [\<lparr>segment_index = 1, segment_start_ms = 5000, segment_end_ms = 6000,
                    whisper_result = hi_result\<rparr>]\<rparr>)
   \<and> main_loop env_up 0 (take 2 [(0, 1000), (5000, 6000)]) (initial_state done_dir)
       = Inr (mid_state\<lparr>skipped_count := 1,
                all_segments := all_segments mid_state @
                  [\<lparr>segment_index = 1, segment_start_ms = 5000, segment_end_ms = 6000,
                    whisper_result = hi_result\<rparr>]\<rparr>)
   \<and> filter (about 1) [SlicerCall (segment_wav 0) 0 1000, EngineCall (segment_wav 0)] = []"
proof -
  let ?segs = "[(0, 1000), (5000, 6000)] :: interval list"
  let ?end = "mid_state\<lparr>skipped_count := 1,
                all_segments := all_segments mid_state @
                  [\<lparr>segment_index = 1, segment_start_ms = 5000, segment_end_ms = 6000,
                    whisper_result = hi_result\<rparr>]\<rparr>"
  have ne: "segment_json 0 \<noteq> segment_json 1"
    using segment_json_inj [of 0 1] by auto
  have nw: "segment_wav 0 \<noteq> segment_json 1"
    by (rule wav_not_json)
  have reach: "main_loop env_up 0 (take 1 ?segs) (initial_state done_dir) = Inr mid_state"
    by (simp add: first_segment_transcribed)
  have i: "(1::nat) < length ?segs" by simp
  have marker: "check_segment_completed 1 (files (world mid_state))"
    using ne nw by (simp add: check_segment_completed_def mid_state_def done_dir_def)
  have ld: "load_existing_result 1 (files (world mid_state)) = hi_result"
    using ne nw by (simp add: load_existing_result_def mid_state_def done_dir_def)
  have sk: "skipped_count mid_state = 0" by (simp add: mid_state_def)
  have step: "process_segment env_up 1 (5000, 6000) mid_state = Inr ?end"
    using marker ld by (simp add: process_segment_def Let_def sk)
  have run: "main_loop env_up 0 (take 2 ?segs) (initial_state done_dir) = Inr ?end"
    using step by (simp add: first_segment_transcribed)
  have tr: "trace (world ?end) = [SlicerCall (segment_wav 0) 0 1000, EngineCall (segment_wav 0)]"
    by (simp add: mid_state_def)
  have t0: "trace (world (initial_state done_dir)) = []"
    by (simp add: initial_state_def)
  have "filter (about 1) (trace (world ?end)) = filter (about 1) (trace (world (initial_state done_dir)))"
    using skip_completed [OF reach i marker _ run] by simp
  then have "filter (about 1) [SlicerCall (segment_wav 0) 0 1000, EngineCall (segment_wav 0)] = []"
    by (simp only: tr t0 filter.simps)
  then show ?thesis
    using reach marker step run by simp
qed

end
